theory Spec2Isabelle
  imports Main "HOL-Library.Char_ord" "HOL-Library.List_Lexorder"
begin

section \<open>Exceptions\<close>

text \<open>
  The exceptions that the modelled Python code can raise. Every function that can
  raise returns a sum, with \<open>Inl\<close> carrying the exception.
\<close>

datatype exn =
    FileNotFoundError
  | AttributeError
  | TypeError
  | ValueError
  | KeyError
  | OSError

section \<open>The corpus directory\<close>

text \<open>
  A path is its list of components. A directory node holds its listing in the order in
  which the file system enumerates it (the order of \<^verbatim>\<open>glob\<close> before any sorting);
  names are byte strings, compared byte by byte, a proper prefix first, as Python compares
  the path components.
\<close>

type_synonym path = "string list"

datatype node = File string | Dir "(string \<times> node) list"

type_synonym filesystem = "path \<Rightarrow> node option"

fun is_dir :: "node \<Rightarrow> bool" where
  "is_dir (Dir es) = True"
| "is_dir (File c) = False"

fun listing :: "node \<Rightarrow> (string \<times> node) list" where
  "listing (Dir es) = es"
| "listing (File c) = []"

text \<open>
  \<^verbatim>\<open>fnmatch\<close> for patterns made of literal characters and \<^verbatim>\<open>*\<close> (all that
  \<^verbatim>\<open>"*"\<close> and \<^verbatim>\<open>"pmcid_*.xml"\<close> use): a star matches any run of characters,
  the empty one too.
\<close>

fun fnmatch :: "string \<Rightarrow> string \<Rightarrow> bool" where
  "fnmatch [] [] = True"
| "fnmatch [] (c # cs) = False"
| "fnmatch (p # ps) [] = (p = CHR ''*'' \<and> fnmatch ps [])"
| "fnmatch (p # ps) (c # cs) =
     (if p = CHR ''*'' then fnmatch ps (c # cs) \<or> fnmatch (p # ps) cs
      else p = c \<and> fnmatch ps cs)"

text \<open>
  \<^verbatim>\<open>d.glob(pattern)\<close> for a one-component pattern: the names in the directory that
  match, in enumeration order. On something that is not a directory it yields nothing.
\<close>

definition glob :: "node \<Rightarrow> string \<Rightarrow> (string \<times> node) list" where
  "glob d pattern = filter (\<lambda>(name, n). fnmatch pattern name) (listing d)"

text \<open>
  Modelled from the spec: \<^verbatim>\<open>_utils.assert_exists\<close> is not among the sources; the
  spec says that the operation fails fast if the corpus root does not exist.
\<close>

definition assert_exists :: "filesystem \<Rightarrow> path \<Rightarrow> exn + unit" where
  "assert_exists fs p = (case fs p of None \<Rightarrow> Inl FileNotFoundError | Some n \<Rightarrow> Inr ())"

section \<open>The article source\<close>

text \<open>
  \<^verbatim>\<open>etree.parse\<close> is a parameter: a function from the bytes of a file to a parsed
  document, \<open>None\<close> when it raises. Parsing a path that is a directory raises.
\<close>

fun parse_node :: "(string \<Rightarrow> 'd option) \<Rightarrow> node \<Rightarrow> 'd option" where
  "parse_node parse (File c) = parse c"
| "parse_node parse (Dir es) = None"

datatype log_entry =
    LogException path
  | LogInfo string nat nat

text \<open>
  The state of the generator: what it has yielded so far, its two counters and what it
  has logged. \<open>visited\<close> is a ghost field: the (shard, file) pairs whose
  \<^verbatim>\<open>try\<close> block has run, in that order.
\<close>

record 'd iter_state =
  yielded :: "'d list"
  visited :: "(string \<times> string) list"
  n_articles :: nat
  n_failures :: nat
  log :: "log_entry list"

definition init_state :: "'d iter_state" where
  "init_state = \<lparr>yielded = [], visited = [], n_articles = 0, n_failures = 0, log = []\<rparr>"

text \<open>
  One turn of the inner loop: the \<^verbatim>\<open>try\<close>, then its \<^verbatim>\<open>finally\<close>. The file is
  opened by its path, that is, looked up by name in the shard \<open>d\<close>; a path that cannot
  be opened makes \<^verbatim>\<open>etree.parse\<close> raise like a file that does not parse.
\<close>

definition visit_file ::
  "(string \<Rightarrow> 'd option) \<Rightarrow> path \<Rightarrow> string \<Rightarrow> node \<Rightarrow> string \<Rightarrow> 'd iter_state \<Rightarrow> 'd iter_state" where
  "visit_file parse articles_dir subdir d article_file st =
     (let st1 = (case map_of (listing d) article_file of
                   None \<Rightarrow> st\<lparr>n_failures := n_failures st + 1,
                              log := log st @ [LogException (articles_dir @ [subdir, article_file])]\<rparr>
                 | Some f \<Rightarrow>
                     (case parse_node parse f of
                        None \<Rightarrow> st\<lparr>n_failures := n_failures st + 1,
                                   log := log st @ [LogException (articles_dir @ [subdir, article_file])]\<rparr>
                      | Some article \<Rightarrow> st\<lparr>yielded := yielded st @ [article]\<rparr>));
          st2 = st1\<lparr>n_articles := n_articles st1 + 1,
                    visited := visited st1 @ [(subdir, article_file)]\<rparr>
      in if n_articles st2 mod 20 = 0
         then st2\<lparr>log := log st2 @ [LogInfo subdir (n_articles st2) (n_failures st2)]\<rparr>
         else st2)"

text \<open>The inner loop over \<^verbatim>\<open>sorted(subdir.glob("pmcid_*.xml"))\<close>.\<close>

definition visit_subdir ::
  "(string \<Rightarrow> 'd option) \<Rightarrow> path \<Rightarrow> node \<Rightarrow> string \<Rightarrow> 'd iter_state \<Rightarrow> 'd iter_state" where
  "visit_subdir parse articles_dir root subdir st =
     (case map_of (listing root) subdir of
        None \<Rightarrow> st
      | Some d \<Rightarrow>
          fold (visit_file parse articles_dir subdir d)
               (sort (map fst (glob d ''pmcid_*.xml''))) st)"

text \<open>The shard directories, \<^verbatim>\<open>sorted([f for f in articles_dir.glob("*") if f.is_dir()])\<close>.\<close>

definition subdirs :: "node \<Rightarrow> string list" where
  "subdirs root = sort (map fst (filter (\<lambda>(name, n). is_dir n) (glob root ''*'')))"

definition iter_articles ::
  "(string \<Rightarrow> 'd option) \<Rightarrow> filesystem \<Rightarrow> path \<Rightarrow> exn + 'd iter_state" where
  "iter_articles parse fs articles_dir =
     (case assert_exists fs articles_dir of
        Inl e \<Rightarrow> Inl e
      | Inr u \<Rightarrow>
          (case fs articles_dir of
             None \<Rightarrow> Inl FileNotFoundError
           | Some root \<Rightarrow>
               Inr (fold (visit_subdir parse articles_dir root) (subdirs root) init_state)))"

text \<open>
  Two directory trees are the same tree when they differ at most in the order in which
  their directories are enumerated: the same names (each once) at every level, the same
  bytes in every file.
\<close>

fun same_tree :: "node \<Rightarrow> node \<Rightarrow> bool" where
  "same_tree (File c) (File c') = (c = c')"
| "same_tree (Dir es) (Dir es') =
     (distinct (map fst es) \<and> distinct (map fst es') \<and> set (map fst es) = set (map fst es') \<and>
      (\<forall>x \<in> set es. \<forall>y \<in> set es'. fst x = fst y \<longrightarrow> same_tree (snd x) (snd y)))"
| "same_tree (File c) (Dir es') = False"
| "same_tree (Dir es) (File c') = False"

section \<open>The text extractor\<close>

text \<open>
  Python values that occur as field values, and the element tree that the stylesheet
  produces: an element has a tag, the text before its first child (\<open>None\<close> when
  there is none) and its children in document order.
\<close>

datatype pyval = PNone | PStr string | PInt int

datatype xelem = Elem (elem_tag: string) (elem_text: "string option") (elem_children: "xelem list")

text \<open>\<^verbatim>\<open>tree.find(name)\<close>: the first child of the root with that tag, or \<^verbatim>\<open>None\<close>.\<close>

definition find_elem :: "xelem \<Rightarrow> string \<Rightarrow> xelem option" where
  "find_elem root part_name = List.find (\<lambda>e. elem_tag e = part_name) (elem_children root)"

definition text_value :: "xelem \<Rightarrow> pyval" where
  "text_value elem = (case elem_text elem of None \<Rightarrow> PNone | Some s \<Rightarrow> PStr s)"

text \<open>
  \<^verbatim>\<open>int(v)\<close>: a \<^verbatim>\<open>TypeError\<close> on \<^verbatim>\<open>None\<close>, a \<^verbatim>\<open>ValueError\<close> on a string that is
  not an integer literal. Which strings are integer literals is a parameter
  (\<open>str_to_int\<close>, Python's own parser).
\<close>

fun py_int :: "(string \<Rightarrow> int option) \<Rightarrow> pyval \<Rightarrow> exn + int" where
  "py_int str_to_int PNone = Inl TypeError"
| "py_int str_to_int (PStr s) =
     (case str_to_int s of None \<Rightarrow> Inl ValueError | Some n \<Rightarrow> Inr n)"
| "py_int str_to_int (PInt n) = Inr n"

definition text_fields :: "string list" where
  "text_fields = [''pmcid'', ''title'', ''keywords'', ''abstract'', ''body'']"

definition text_name :: string where
  "text_name = ''text''"

text \<open>The loop \<^verbatim>\<open>for part_name in self.fields\<close>; \<^verbatim>\<open>elem.text\<close> raises when \<^verbatim>\<open>elem\<close> is \<^verbatim>\<open>None\<close>.\<close>

fun fill_parts ::
  "xelem \<Rightarrow> string list \<Rightarrow> (string \<rightharpoonup> pyval) \<Rightarrow> exn + (string \<rightharpoonup> pyval)" where
  "fill_parts transformed [] result = Inr result"
| "fill_parts transformed (part_name # rest) result =
     (case find_elem transformed part_name of
        None \<Rightarrow> Inl AttributeError
      | Some elem \<Rightarrow> fill_parts transformed rest (result(part_name \<mapsto> text_value elem)))"

text \<open>
  \<^verbatim>\<open>TextExtractor._extract_text_from_article\<close>. The stylesheet is a parameter: a
  function from the article to the transformed tree, \<open>None\<close> when the transform raises.
\<close>

definition extract_text_from_article ::
  "('d \<Rightarrow> xelem option) \<Rightarrow> (string \<Rightarrow> int option) \<Rightarrow> 'd \<Rightarrow> exn + (string \<rightharpoonup> pyval)" where
  "extract_text_from_article stylesheet str_to_int article =
     (case stylesheet article of
        None \<Rightarrow> Inr Map.empty
      | Some transformed \<Rightarrow>
          (case fill_parts transformed text_fields Map.empty of
             Inl e \<Rightarrow> Inl e
           | Inr result \<Rightarrow>
               (case result ''pmcid'' of
                  None \<Rightarrow> Inl KeyError
                | Some v \<Rightarrow>
                    (case py_int str_to_int v of
                       Inl e \<Rightarrow> Inl e
                     | Inr n \<Rightarrow> Inr (result(''pmcid'' \<mapsto> PInt n))))))"

section \<open>The record assembler\<close>

text \<open>
  What an extractor returns: a mapping from field names to values, or, for the
  coordinates, a data frame (its rows, of a type \<open>'r\<close> left open).
\<close>

datatype 'r part = Fields "string \<rightharpoonup> pyval" | Frame "'r list"

type_synonym 'r article_data = "string \<rightharpoonup> 'r part"

record ('d, 'r) extractor =
  ename :: string
  extract_doc :: "'d \<Rightarrow> exn + 'r part"

text \<open>
  Everything the run takes from outside the two source files: the XML parser, the
  coordinate and metadata extractors, the stylesheet, the integer parser, and which
  writer operations meet an I/O failure (opening the writer with a given name; the
  append number \<open>k\<close>, counted from 0, of the writer with a given name).
\<close>

record ('d, 'r) env =
  parse :: "string \<Rightarrow> 'd option"
  coordinates_extract :: "'d \<Rightarrow> exn + 'r list"
  metadata_extract :: "'d \<Rightarrow> exn + (string \<rightharpoonup> pyval)"
  stylesheet :: "'d \<Rightarrow> xelem option"
  str_to_int :: "string \<Rightarrow> int option"
  open_fails :: "string \<Rightarrow> bool"
  write_fails :: "string \<Rightarrow> nat \<Rightarrow> bool"

fun on_result :: "('a \<Rightarrow> 'b) \<Rightarrow> exn + 'a \<Rightarrow> exn + 'b" where
  "on_result f (Inl e) = Inl e"
| "on_result f (Inr v) = Inr (f v)"

text \<open>
  Modelled from the spec: \<^verbatim>\<open>CoordinateExtractor\<close> and \<^verbatim>\<open>MetadataExtractor\<close> are not
  among the sources. Their names are the keys that the docstring of
  \<^verbatim>\<open>extract_data\<close> lists; what they extract is a parameter. The coordinate extractor
  returns a data frame.
\<close>

definition CoordinateExtractor :: "('d, 'r) env \<Rightarrow> ('d, 'r) extractor" where
  "CoordinateExtractor env =
     \<lparr>ename = ''coordinates'', extract_doc = (\<lambda>a. on_result Frame (coordinates_extract env a))\<rparr>"

text \<open>
  Modelled from the spec: \<^verbatim>\<open>MetadataExtractor\<close>, named \<open>metadata\<close>; what it extracts
  is a parameter.
\<close>

definition MetadataExtractor :: "('d, 'r) env \<Rightarrow> ('d, 'r) extractor" where
  "MetadataExtractor env =
     \<lparr>ename = ''metadata'', extract_doc = (\<lambda>a. on_result Fields (metadata_extract env a))\<rparr>"

definition TextExtractor :: "('d, 'r) env \<Rightarrow> ('d, 'r) extractor" where
  "TextExtractor env =
     \<lparr>ename = text_name,
      extract_doc = (\<lambda>a. on_result Fields
                   (extract_text_from_article (stylesheet env) (str_to_int env) a))\<rparr>"

definition data_extractors :: "('d, 'r) env \<Rightarrow> ('d, 'r) extractor list" where
  "data_extractors env = [CoordinateExtractor env, MetadataExtractor env, TextExtractor env]"

text \<open>
  The dict comprehension: the extractors run in list order, and the first one that
  raises ends the comprehension.
\<close>

fun assemble ::
  "('d, 'r) extractor list \<Rightarrow> 'd \<Rightarrow> 'r article_data \<Rightarrow> exn + 'r article_data" where
  "assemble [] article acc = Inr acc"
| "assemble (x # xs) article acc =
     (case extract_doc x article of
        Inl e \<Rightarrow> Inl e
      | Inr v \<Rightarrow> assemble xs article (acc(ename x \<mapsto> v)))"

text \<open>
  A generator is modelled by what it yields and how it ends: the list of the values
  yielded, and the exception that ended it, if one did.
\<close>

fun extract_loop ::
  "('d, 'r) extractor list \<Rightarrow> 'd list \<Rightarrow> 'r article_data list \<times> exn option" where
  "extract_loop xs [] = ([], None)"
| "extract_loop xs (article # rest) =
     (case assemble xs article Map.empty of
        Inl e \<Rightarrow> ([], Some e)
      | Inr article_data \<Rightarrow>
          (case extract_loop xs rest of (ys, ex) \<Rightarrow> (article_data # ys, ex)))"

definition extract_data ::
  "('d, 'r) env \<Rightarrow> filesystem \<Rightarrow> path \<Rightarrow> bool \<Rightarrow> 'r article_data list \<times> exn option" where
  "extract_data env fs articles_dir articles_with_coords_only =
     (case assert_exists fs articles_dir of
        Inl e \<Rightarrow> ([], Some e)
      | Inr u \<Rightarrow>
          (case iter_articles (parse env) fs articles_dir of
             Inl e \<Rightarrow> ([], Some e)
           | Inr st \<Rightarrow> extract_loop (data_extractors env) (yielded st)))"

section \<open>Table writers\<close>

datatype wstatus = CLOSED | OPEN

text \<open>
  Modelled from the spec: \<^verbatim>\<open>CSVWriter\<close> is not among the sources. The spec gives a
  writer the life cycle CLOSED, OPEN, CLOSED. Opening creates or truncates the backing
  file; while the writer is open, \<^verbatim>\<open>write\<close> takes the part of the record that the
  writer owns and appends it to a buffer; closing flushes the buffer to the file. The
  header row is left out. Whether opening or an append meets an I/O failure is decided
  by the environment. \<open>received\<close> is a ghost field: the records whose \<^verbatim>\<open>write\<close> has
  returned, in order.
\<close>

record 'r writer =
  wname :: string
  wdir :: path
  wstatus :: wstatus
  wbuffer :: "'r part list"
  wfile :: "'r part list option"
  received :: "'r article_data list"

text \<open>
  Modelled from the spec: \<^verbatim>\<open>CSVWriter.from_extractor\<close> makes a closed writer for the
  extractor's name in the output directory.
\<close>

definition from_extractor :: "string \<Rightarrow> path \<Rightarrow> 'r writer" where
  "from_extractor extractor_name output_dir =
     \<lparr>wname = extractor_name, wdir = output_dir, wstatus = CLOSED, wbuffer = [],
      wfile = None, received = []\<rparr>"

text \<open>
  Modelled from the spec: \<^verbatim>\<open>CSVWriter.__enter__\<close> creates or truncates the backing file
  and leaves the writer open, unless opening meets an I/O failure.
\<close>

definition writer_enter :: "(string \<Rightarrow> bool) \<Rightarrow> 'r writer \<Rightarrow> exn + 'r writer" where
  "writer_enter fails w =
     (if fails (wname w) then Inl OSError
      else Inr (w\<lparr>wstatus := OPEN, wbuffer := [], wfile := Some []\<rparr>))"

text \<open>
  Modelled from the spec: \<^verbatim>\<open>CSVWriter.write\<close> appends the part of the record that the
  writer owns to the buffer of an open writer, unless the append meets an I/O failure.
\<close>

definition writer_write ::
  "(string \<Rightarrow> nat \<Rightarrow> bool) \<Rightarrow> 'r writer \<Rightarrow> 'r article_data \<Rightarrow> exn + 'r writer" where
  "writer_write fails w article_data =
     (if wstatus w \<noteq> OPEN then Inl ValueError
      else (case article_data (wname w) of
              None \<Rightarrow> Inl KeyError
            | Some p \<Rightarrow>
                if fails (wname w) (length (received w)) then Inl OSError
                else Inr (w\<lparr>wbuffer := wbuffer w @ [p],
                            received := received w @ [article_data]\<rparr>)))"

text \<open>
  Modelled from the spec: \<^verbatim>\<open>CSVWriter.__exit__\<close> flushes the buffer to the backing file
  and closes the writer. It returns \<^verbatim>\<open>None\<close>: it never swallows the exception that
  unwinds.
\<close>

definition writer_exit :: "'r writer \<Rightarrow> 'r writer" where
  "writer_exit w =
     w\<lparr>wstatus := CLOSED,
       wfile := Some ((case wfile w of None \<Rightarrow> [] | Some rows \<Rightarrow> rows) @ wbuffer w),
       wbuffer := []\<rparr>"

section \<open>The batch orchestrator\<close>

text \<open>
  What a run can change: the directories it has made, the files it has written with
  \<^verbatim>\<open>write_text\<close> (a JSON value each) and the writer objects. The corpus itself is only
  read.
\<close>

datatype json = JNum nat | JObj "(string \<times> json) list"

record 'r world =
  dirs :: "path set"
  files :: "path \<rightharpoonup> json"
  writers :: "'r writer list"

text \<open>\<^verbatim>\<open>p.with_name(name)\<close> raises a \<^verbatim>\<open>ValueError\<close> when \<open>p\<close> has no last component.\<close>

definition with_name :: "path \<Rightarrow> string \<Rightarrow> exn + path" where
  "with_name p new_name = (if p = [] then Inl ValueError else Inr (butlast p @ [new_name]))"

text \<open>\<^verbatim>\<open>mkdir(exist_ok=True, parents=True)\<close>: the directory and all its ancestors exist afterwards.\<close>

definition mkdir :: "path \<Rightarrow> 'r world \<Rightarrow> 'r world" where
  "mkdir p w = w\<lparr>dirs := dirs w \<union> set (map (\<lambda>k. take k p) [0..<Suc (length p)])\<rparr>"

definition get_output_dir ::
  "path \<Rightarrow> path option \<Rightarrow> bool \<Rightarrow> 'r world \<Rightarrow> (exn + path) \<times> 'r world" where
  "get_output_dir articles_dir output_dir articles_with_coords_only w =
     (case (case output_dir of
              None \<Rightarrow>
                with_name articles_dir
                  (''subset_''
                   @ (if articles_with_coords_only then ''articlesWithCoords'' else ''allArticles'')
                   @ ''_extractedData'')
            | Some d \<Rightarrow> Inr d) of
        Inl e \<Rightarrow> (Inl e, w)
      | Inr out \<Rightarrow> (Inr out, mkdir out w))"

definition all_writers :: "path \<Rightarrow> 'r writer list" where
  "all_writers output_dir =
     [from_extractor ''metadata'' output_dir,
      from_extractor text_name output_dir,
      from_extractor ''coordinates'' output_dir]"

text \<open>
  The writer objects live in a list and are referred to by their index in it. The exit
  stack is the list of the indices entered, the last one first.
  \<^verbatim>\<open>for writer in all_writers: stack.enter_context(writer)\<close>:
\<close>

fun enter_contexts ::
  "(string \<Rightarrow> bool) \<Rightarrow> nat list \<Rightarrow> 'r writer list \<Rightarrow> nat list
     \<Rightarrow> exn option \<times> 'r writer list \<times> nat list" where
  "enter_contexts fails [] ws stack = (None, ws, stack)"
| "enter_contexts fails (i # rest) ws stack =
     (case writer_enter fails (ws ! i) of
        Inl e \<Rightarrow> (Some e, ws, stack)
      | Inr w' \<Rightarrow> enter_contexts fails rest (ws[i := w']) (i # stack))"

definition enter_all ::
  "(string \<Rightarrow> bool) \<Rightarrow> 'r writer list \<Rightarrow> exn option \<times> 'r writer list \<times> nat list" where
  "enter_all fails ws = enter_contexts fails [0..<length ws] ws []"

text \<open>Leaving the \<^verbatim>\<open>with\<close> block, normally or not, exits every entered writer, the last first.\<close>

definition exit_stack :: "nat list \<Rightarrow> 'r writer list \<Rightarrow> 'r writer list" where
  "exit_stack stack ws = fold (\<lambda>i ws'. ws'[i := writer_exit (ws' ! i)]) stack ws"

text \<open>\<^verbatim>\<open>for writer in all_writers: writer.write(article_data)\<close>:\<close>

fun write_all ::
  "(string \<Rightarrow> nat \<Rightarrow> bool) \<Rightarrow> 'r article_data \<Rightarrow> nat list \<Rightarrow> 'r writer list
     \<Rightarrow> exn option \<times> 'r writer list" where
  "write_all fails article_data [] ws = (None, ws)"
| "write_all fails article_data (i # rest) ws =
     (case writer_write fails (ws ! i) article_data of
        Inl e \<Rightarrow> (Some e, ws)
      | Inr w' \<Rightarrow> write_all fails article_data rest (ws[i := w']))"

text \<open>
  The streaming loop over the generator \<^verbatim>\<open>extract_data(...)\<close>: it ends at the first
  write that raises, or, once the values yielded are used up, with the exception that
  ended the generator, if any.
\<close>

fun stream ::
  "(string \<Rightarrow> nat \<Rightarrow> bool) \<Rightarrow> 'r article_data list \<Rightarrow> exn option \<Rightarrow> 'r writer list \<Rightarrow> nat
     \<Rightarrow> exn option \<times> 'r writer list \<times> nat" where
  "stream fails [] ex ws n = (ex, ws, n)"
| "stream fails (article_data # rest) ex ws n =
     (case write_all fails article_data [0..<length ws] ws of
        (Some e, ws') \<Rightarrow> (Some e, ws', n + 1)
      | (None, ws') \<Rightarrow> stream fails rest ex ws' (n + 1))"

definition info_json :: "nat \<Rightarrow> json" where
  "info_json n = JObj [(''n_articles'', JNum n)]"

definition extract_data_to_csv ::
  "('d, 'r) env \<Rightarrow> filesystem \<Rightarrow> path \<Rightarrow> path option \<Rightarrow> bool \<Rightarrow> 'r world
     \<Rightarrow> (exn + path \<times> int) \<times> 'r world" where
  "extract_data_to_csv env fs articles_dir output_dir articles_with_coords_only w =
     (case assert_exists fs articles_dir of
        Inl e \<Rightarrow> (Inl e, w)
      | Inr u \<Rightarrow>
          (case get_output_dir articles_dir output_dir articles_with_coords_only w of
             (Inl e, w1) \<Rightarrow> (Inl e, w1)
           | (Inr out, w1) \<Rightarrow>
               (case enter_all (open_fails env) (all_writers out) of
                  (Some e, ws1, stack) \<Rightarrow> (Inl e, w1\<lparr>writers := exit_stack stack ws1\<rparr>)
                | (None, ws1, stack) \<Rightarrow>
                    (case extract_data env fs articles_dir articles_with_coords_only of
                       (article_datas, ex) \<Rightarrow>
                         (case stream (write_fails env) article_datas ex ws1 0 of
                            (Some e, ws2, n) \<Rightarrow> (Inl e, w1\<lparr>writers := exit_stack stack ws2\<rparr>)
                          | (None, ws2, n) \<Rightarrow>
                              (Inr (out, 0),
                               w1\<lparr>writers := exit_stack stack ws2,
                                  files := (files w1)(out @ [''info.json''] \<mapsto> info_json n)\<rparr>))))))"

section \<open>Vocabulary of the properties\<close>

subsection \<open>The traversal\<close>

text \<open>
  What parsing the file \<open>f\<close> of the directory \<open>d\<close> gives, and what parsing the
  file \<open>v = (shard, name)\<close> under the corpus root gives: \<open>None\<close> when
  \<^verbatim>\<open>etree.parse\<close> raises.
\<close>

definition file_result :: "(string \<Rightarrow> 'd option) \<Rightarrow> node \<Rightarrow> string \<Rightarrow> 'd option" where
  "file_result prs d f = (case map_of (listing d) f of None \<Rightarrow> None | Some n \<Rightarrow> parse_node prs n)"

definition parse_at :: "(string \<Rightarrow> 'd option) \<Rightarrow> node \<Rightarrow> string \<times> string \<Rightarrow> 'd option" where
  "parse_at prs root v =
     (case map_of (listing root) (fst v) of
        None \<Rightarrow> None
      | Some d \<Rightarrow> (case map_of (listing d) (snd v) of None \<Rightarrow> None | Some f \<Rightarrow> parse_node prs f))"

text \<open>The paths of the diagnostics \<^verbatim>\<open>Failed to parse ...\<close> in a log, in order.\<close>

fun failure_paths :: "log_entry list \<Rightarrow> path list" where
  "failure_paths [] = []"
| "failure_paths (LogException p # es) = p # failure_paths es"
| "failure_paths (LogInfo s n m # es) = failure_paths es"

text \<open>
  The article files of a shard in name order, and the whole traversal: shard by shard
  in name order.
\<close>

definition article_files :: "node \<Rightarrow> string \<Rightarrow> string list" where
  "article_files root subdir =
     (case map_of (listing root) subdir of
        None \<Rightarrow> []
      | Some d \<Rightarrow> sort (map fst (glob d ''pmcid_*.xml'')))"

definition traversal :: "node \<Rightarrow> (string \<times> string) list" where
  "traversal root = concat (map (\<lambda>s. map (Pair s) (article_files root s)) (subdirs root))"

text \<open>The lexicographic order on (shard name, file name).\<close>

definition lex_less :: "string \<times> string \<Rightarrow> string \<times> string \<Rightarrow> bool" where
  "lex_less a b = (fst a < fst b \<or> (fst a = fst b \<and> snd a < snd b))"

text \<open>A name occurs once in the corpus root and once in each of its shards.\<close>

definition well_formed :: "node \<Rightarrow> bool" where
  "well_formed root =
     (distinct (map fst (listing root)) \<and>
      (\<forall>x \<in> set (listing root). distinct (map fst (listing (snd x)))))"

text \<open>
  The generator state agrees with its ghost trace: every visited file is counted, the
  failures counted and logged are the visited files that do not parse, and the documents
  yielded are the results of those that do, in the order of the visit.
\<close>

definition traced :: "(string \<Rightarrow> 'd option) \<Rightarrow> path \<Rightarrow> node \<Rightarrow> 'd iter_state \<Rightarrow> bool" where
  "traced prs ad root st =
     (n_articles st = length (visited st) \<and>
      n_failures st = length (filter (\<lambda>v. parse_at prs root v = None) (visited st)) \<and>
      yielded st = List.map_filter (parse_at prs root) (visited st) \<and>
      failure_paths (log st) =
        map (\<lambda>v. ad @ [fst v, snd v]) (filter (\<lambda>v. parse_at prs root v = None) (visited st)))"

subsection \<open>The writers\<close>

text \<open>The parts that the writer named \<open>nm\<close> owns in a list of records.\<close>

definition owned :: "string \<Rightarrow> 'r article_data list \<Rightarrow> 'r part list" where
  "owned nm recs = List.map_filter (\<lambda>r. r nm) recs"

text \<open>
  A writer inside the \<^verbatim>\<open>with\<close> block: open, nothing flushed yet, its buffer holding
  its part of every record received.
\<close>

definition winv :: "'r writer \<Rightarrow> bool" where
  "winv w = (wstatus w = OPEN \<and> wfile w = Some [] \<and> wbuffer w = owned (wname w) (received w))"

definition writer_names :: "string list" where
  "writer_names = [''metadata'', ''text'', ''coordinates'']"

text \<open>The directory that \<^verbatim>\<open>extract_data_to_csv\<close> documents as its result.\<close>

definition resolved_output_dir :: "path \<Rightarrow> path option \<Rightarrow> bool \<Rightarrow> path" where
  "resolved_output_dir articles_dir output_dir articles_with_coords_only =
     (case output_dir of
        Some d \<Rightarrow> d
      | None \<Rightarrow>
          butlast articles_dir
          @ [if articles_with_coords_only then ''subset_articlesWithCoords_extractedData''
             else ''subset_allArticles_extractedData''])"

section \<open>A small corpus\<close>

text \<open>
  The scenario of the spec: shard \<open>000\<close> with two valid articles and a malformed one,
  shard \<open>001\<close> with one valid article that has no coordinates; a file and a shard entry
  that the traversal must ignore; everything enumerated out of order.
\<close>

definition example_dir :: path where
  "example_dir = [''data'', ''articles'']"

definition example_root :: node where
  "example_root = Dir
     [(''001'', Dir [(''pmcid_30.xml'', File ''<article>30</article>'')]),
      (''README'', File ''notes''),
      (''000'', Dir [(''pmcid_20.xml'', File ''<article>20</article>''),
                     (''pmcid_15.xml'', File ''<article>15''),
                     (''notes.txt'', File ''<article>99</article>''),
                     (''pmcid_10.xml'', File ''<article>10</article>'')])]"

definition example_fs :: filesystem where
  "example_fs = [example_dir \<mapsto> example_root]"

text \<open>The same tree, enumerated in another order.\<close>

definition example_root_reordered :: node where
  "example_root_reordered = Dir
     [(''000'', Dir [(''pmcid_10.xml'', File ''<article>10</article>''),
                     (''notes.txt'', File ''<article>99</article>''),
                     (''pmcid_20.xml'', File ''<article>20</article>''),
                     (''pmcid_15.xml'', File ''<article>15'')]),
      (''001'', Dir [(''pmcid_30.xml'', File ''<article>30</article>'')]),
      (''README'', File ''notes'')]"

text \<open>A corpus in which no article file parses, and one whose only article has no PMC id.\<close>

definition broken_root :: node where
  "broken_root = Dir [(''000'', Dir [(''pmcid_2.xml'', File ''<article''),
                                     (''pmcid_1.xml'', File [])])]"

definition no_pmcid_root :: node where
  "no_pmcid_root = Dir [(''000'', Dir [(''pmcid_1.xml'', File ''<article></article>''),
                                       (''pmcid_40.xml'', File ''<article>40</article>'')])]"

definition example_fs_reordered :: filesystem where
  "example_fs_reordered = [example_dir \<mapsto> example_root_reordered]"

definition broken_fs :: filesystem where
  "broken_fs = [example_dir \<mapsto> broken_root]"

definition no_pmcid_fs :: filesystem where
  "no_pmcid_fs = [example_dir \<mapsto> no_pmcid_root]"

text \<open>
  A parser for the examples: a file parses when it is \<^verbatim>\<open><article>ID</article>\<close>, and
  the parsed document is the ID.
\<close>

definition example_parse :: "string \<Rightarrow> string option" where
  "example_parse c =
     (if 19 \<le> length c \<and> take 9 c = ''<article>'' \<and> drop (length c - 10) c = ''</article>''
      then Some (take (length c - 19) (drop 9 c)) else None)"

definition example_str_to_int :: "string \<Rightarrow> int option" where
  "example_str_to_int s =
     (if s \<noteq> [] \<and> list_all (\<lambda>c. c \<in> set ''0123456789'') s
      then Some (foldl (\<lambda>n c. 10 * n + (int (of_char c) - 48)) 0 s) else None)"

text \<open>
  The transform of the examples raises on document 20; the \<^verbatim>\<open>pmcid\<close> element of a
  document without an ID has no text.
\<close>

definition example_stylesheet :: "string \<Rightarrow> xelem option" where
  "example_stylesheet d =
     (if d = ''20'' then None
      else Some (Elem ''extracted-text'' None
                  [Elem ''pmcid'' (if d = [] then None else Some d) [],
                   Elem ''title'' (Some ''A title'') [],
                   Elem ''keywords'' None [],
                   Elem ''abstract'' (Some ''An abstract'') [],
                   Elem ''body'' (Some ''A body'') []]))"

definition example_env :: "(string, int \<times> int \<times> int) env" where
  "example_env =
     \<lparr>parse = example_parse,
      coordinates_extract = (\<lambda>d. Inr (if d = ''30'' then [] else [(10, -20, 30)])),
      metadata_extract = (\<lambda>d. Inr [''pmcid'' \<mapsto> PStr d]),
      stylesheet = example_stylesheet,
      str_to_int = example_str_to_int,
      open_fails = (\<lambda>nm. False),
      write_fails = (\<lambda>nm k. False)\<rparr>"

text \<open>The same environment, but the second append of the text writer meets an I/O failure.\<close>

definition failing_env :: "(string, int \<times> int \<times> int) env" where
  "failing_env = example_env\<lparr>write_fails := (\<lambda>nm k. nm = ''text'' \<and> k = 1)\<rparr>"

definition empty_world :: "(int \<times> int \<times> int) world" where
  "empty_world = \<lparr>dirs = {}, files = Map.empty, writers = []\<rparr>"

text \<open>
  The world after an earlier run into the default output directory that processed seven
  articles: the directory exists and holds that run's \<^verbatim>\<open>info.json\<close>.
\<close>

definition stale_world :: "(int \<times> int \<times> int) world" where
  "stale_world =
     \<lparr>dirs = {[], [''data''], [''data'', ''subset_allArticles_extractedData'']},
      files = [[''data'', ''subset_allArticles_extractedData'', ''info.json'']
                 \<mapsto> JObj [(''n_articles'', JNum 7)]],
      writers = []\<rparr>"

section \<open>Properties of the article source\<close>

subsection \<open>The generator state follows the traversal\<close>

text \<open>
  Each visit appends to the trace, adds one to \<open>n_articles\<close> and either yields the
  document or counts and logs the failure; the agreement of the state with its trace is
  then kept by the inner and by the outer loop.
\<close>

lemma failure_paths_append: "failure_paths (xs @ ys) = failure_paths xs @ failure_paths ys"
  by (induction xs rule: failure_paths.induct) simp_all

lemma visit_file_fields:
  "visited (visit_file prs ad s d f st) = visited st @ [(s, f)] \<and>
   n_articles (visit_file prs ad s d f st) = n_articles st + 1 \<and>
   n_failures (visit_file prs ad s d f st) =
     n_failures st + (if file_result prs d f = None then 1 else 0) \<and>
   yielded (visit_file prs ad s d f st) =
     yielded st @ (case file_result prs d f of None \<Rightarrow> [] | Some a \<Rightarrow> [a]) \<and>
   failure_paths (log (visit_file prs ad s d f st)) =
     failure_paths (log st) @ (if file_result prs d f = None then [ad @ [s, f]] else [])"
  by (simp add: visit_file_def file_result_def Let_def failure_paths_append
      split: option.splits)

lemma traced_init: "traced prs ad root init_state"
  by (simp add: traced_def init_state_def map_filter_def)

lemma traced_visit_file:
  assumes "traced prs ad root st" and "map_of (listing root) s = Some d"
  shows "traced prs ad root (visit_file prs ad s d f st)"
proof -
  have "parse_at prs root (s, f) = file_result prs d f"
    using assms(2) by (simp add: parse_at_def file_result_def)
  with assms(1) visit_file_fields[of prs ad s d f st] show ?thesis
    by (auto simp: traced_def map_filter_def)
qed

lemma fold_visit_file:
  assumes "traced prs ad root st" and "map_of (listing root) s = Some d"
  shows "traced prs ad root (fold (visit_file prs ad s d) fs st) \<and>
         visited (fold (visit_file prs ad s d) fs st) = visited st @ map (Pair s) fs"
  using assms(1)
proof (induction fs arbitrary: st)
  case Nil
  then show ?case by simp
next
  case (Cons f fs)
  from traced_visit_file[OF Cons.prems assms(2)]
  have "traced prs ad root (visit_file prs ad s d f st)" .
  from Cons.IH[OF this] visit_file_fields[of prs ad s d f st] show ?case by simp
qed

lemma visit_subdir_traced:
  assumes "traced prs ad root st"
  shows "traced prs ad root (visit_subdir prs ad root s st) \<and>
         visited (visit_subdir prs ad root s st) = visited st @ map (Pair s) (article_files root s)"
proof (cases "map_of (listing root) s")
  case None
  with assms show ?thesis by (simp add: visit_subdir_def article_files_def)
next
  case (Some d)
  with fold_visit_file[OF assms Some] show ?thesis
    by (simp add: visit_subdir_def article_files_def)
qed

lemma fold_visit_subdir:
  assumes "traced prs ad root st"
  shows "traced prs ad root (fold (visit_subdir prs ad root) ss st) \<and>
         visited (fold (visit_subdir prs ad root) ss st) =
           visited st @ concat (map (\<lambda>s. map (Pair s) (article_files root s)) ss)"
  using assms
proof (induction ss arbitrary: st)
  case Nil
  then show ?case by simp
next
  case (Cons s ss)
  from visit_subdir_traced[OF Cons.prems, of s] Cons.IH[of "visit_subdir prs ad root s st"]
  show ?case by simp
qed

lemma iter_articles_traced:
  assumes "fs ad = Some root"
  shows "\<exists>st. iter_articles prs fs ad = Inr st \<and> traced prs ad root st \<and>
              visited st = traversal root"
  using assms fold_visit_subdir[OF traced_init, of prs ad root "subdirs root"]
  by (simp add: iter_articles_def assert_exists_def traversal_def init_state_def)

subsection \<open>The traversal is sorted\<close>

text \<open>
  Sorting names that are pairwise different gives a strictly increasing list, so the
  shards, and the files of each shard, come in strictly increasing order of their names.
\<close>

lemma sorted_wrt_lex_concat:
  assumes "sorted_wrt (<) ss" and "\<And>s. s \<in> set ss \<Longrightarrow> sorted_wrt (<) (F s)"
  shows "sorted_wrt lex_less (concat (map (\<lambda>s. map (Pair s) (F s)) ss))"
  using assms
proof (induction ss)
  case Nil
  then show ?case by simp
next
  case (Cons s ss)
  have here: "sorted_wrt lex_less (map (Pair s) (F s))"
    using Cons.prems(2)[of s] by (simp add: sorted_wrt_map lex_less_def)
  have rest: "sorted_wrt lex_less (concat (map (\<lambda>s. map (Pair s) (F s)) ss))"
    using Cons by simp
  have cross: "lex_less x y" if "x \<in> set (map (Pair s) (F s))"
    and "y \<in> set (concat (map (\<lambda>s. map (Pair s) (F s)) ss))" for x y
  proof -
    from that(1) have "fst x = s" by auto
    moreover from that(2) have "fst y \<in> set ss" by auto
    moreover from Cons.prems(1) have "\<forall>t \<in> set ss. s < t" by simp
    ultimately show ?thesis by (simp add: lex_less_def)
  qed
  from here rest cross show ?case by (simp add: sorted_wrt_append)
qed

lemma subdirs_strict:
  assumes "distinct (map fst (listing root))"
  shows "sorted_wrt (<) (subdirs root)"
proof -
  have "distinct (map fst (filter (\<lambda>(name, n). is_dir n) (glob root ''*'')))"
    unfolding glob_def using assms by (intro distinct_map_filter)
  then show ?thesis by (simp add: subdirs_def strict_sorted_iff)
qed

lemma article_files_strict:
  assumes "\<forall>x \<in> set (listing root). distinct (map fst (listing (snd x)))"
  shows "sorted_wrt (<) (article_files root s)"
proof (cases "map_of (listing root) s")
  case None
  then show ?thesis by (simp add: article_files_def)
next
  case (Some d)
  then have "(s, d) \<in> set (listing root)" by (rule map_of_SomeD)
  with assms have "distinct (map fst (listing d))" by auto
  then have "distinct (map fst (glob d ''pmcid_*.xml''))"
    unfolding glob_def by (intro distinct_map_filter)
  with Some show ?thesis by (simp add: article_files_def strict_sorted_iff)
qed

lemma traversal_sorted:
  assumes "well_formed root"
  shows "sorted_wrt lex_less (traversal root)"
  unfolding traversal_def
  using assms subdirs_strict[of root] article_files_strict[of root]
  by (intro sorted_wrt_lex_concat) (simp_all add: well_formed_def)

lemma traversal_set:
  assumes "distinct (map fst (listing root))"
  shows "set (traversal root) =
         {(s, f). \<exists>d n. (s, d) \<in> set (listing root) \<and> is_dir d \<and>
                     (f, n) \<in> set (listing d) \<and> fnmatch ''pmcid_*.xml'' f}"
proof -
  have star: "fnmatch ''*'' s" for s by (induction s) simp_all
  have look: "map_of (listing root) s = Some d \<longleftrightarrow> (s, d) \<in> set (listing root)" for s d
    using assms by simp
  have sub: "s \<in> set (subdirs root) \<longleftrightarrow> (\<exists>d. (s, d) \<in> set (listing root) \<and> is_dir d)" for s
    by (force simp: subdirs_def glob_def star)
  have af: "f \<in> set (article_files root s) \<longleftrightarrow>
        (\<exists>d n. (s, d) \<in> set (listing root) \<and> (f, n) \<in> set (listing d) \<and> fnmatch ''pmcid_*.xml'' f)"
    for s f
  proof (cases "map_of (listing root) s")
    case None
    then have "\<forall>d. (s, d) \<notin> set (listing root)" using look[of s] by auto
    with None show ?thesis by (simp add: article_files_def)
  next
    case (Some d)
    have "(s, d') \<in> set (listing root) \<longleftrightarrow> d' = d" for d'
      using look[of s d'] Some by auto
    then have "\<forall>d'. (s, d') \<in> set (listing root) \<longleftrightarrow> d' = d" by simp
    with Some show ?thesis by (force simp: article_files_def glob_def)
  qed
  show ?thesis
  proof (rule set_eqI)
    fix v :: "string \<times> string"
    obtain s f where v: "v = (s, f)" by (cases v)
    have "v \<in> set (traversal root) \<longleftrightarrow> s \<in> set (subdirs root) \<and> f \<in> set (article_files root s)"
      unfolding v traversal_def by auto
    also have "\<dots> \<longleftrightarrow> (\<exists>d n. (s, d) \<in> set (listing root) \<and> is_dir d \<and>
                     (f, n) \<in> set (listing d) \<and> fnmatch ''pmcid_*.xml'' f)"
      unfolding sub af using assms by (metis look option.inject)
    finally show "v \<in> set (traversal root) \<longleftrightarrow> v \<in> {(s, f). \<exists>d n. (s, d) \<in> set (listing root) \<and> is_dir d \<and>
                     (f, n) \<in> set (listing d) \<and> fnmatch ''pmcid_*.xml'' f}"
      unfolding v by simp
  qed
qed

subsection \<open>The enumeration order does not matter\<close>

text \<open>
  Two listings of the same directory have the same names, so sorting gives the same list;
  a name leads to the same file, or to the same directory listed in another order.
\<close>

lemma same_tree_is_dir: "same_tree a b \<Longrightarrow> is_dir a = is_dir b"
  by (cases a; cases b) simp_all

lemma same_tree_parse: "same_tree a b \<Longrightarrow> parse_node prs a = parse_node prs b"
  by (cases a; cases b) simp_all

lemma same_tree_listing:
  assumes "same_tree t t'"
  shows "distinct (map fst (listing t)) \<and> distinct (map fst (listing t')) \<and>
         set (map fst (listing t)) = set (map fst (listing t')) \<and>
         (\<forall>x \<in> set (listing t). \<forall>y \<in> set (listing t'). fst x = fst y \<longrightarrow> same_tree (snd x) (snd y))"
  using assms by (cases t; cases t') simp_all

lemma same_tree_lookup:
  assumes "same_tree t t'"
  shows "(map_of (listing t) n = None \<and> map_of (listing t') n = None) \<or>
         (\<exists>a b. map_of (listing t) n = Some a \<and> map_of (listing t') n = Some b \<and> same_tree a b)"
proof (cases "map_of (listing t) n")
  case None
  then have "n \<notin> set (map fst (listing t))" by (simp add: map_of_eq_None_iff)
  with same_tree_listing[OF assms] have "n \<notin> set (map fst (listing t'))" by simp
  then have "map_of (listing t') n = None" by (simp add: map_of_eq_None_iff)
  with None show ?thesis by simp
next
  case (Some a)
  then have a: "(n, a) \<in> set (listing t)" by (rule map_of_SomeD)
  then have "n \<in> set (map fst (listing t))" by force
  with same_tree_listing[OF assms] have "n \<in> set (map fst (listing t'))" by simp
  then obtain b where b: "map_of (listing t') n = Some b"
    by (cases "map_of (listing t') n") (simp_all add: map_of_eq_None_iff)
  then have "(n, b) \<in> set (listing t')" by (rule map_of_SomeD)
  with a same_tree_listing[OF assms] have "same_tree a b" by force
  with Some b show ?thesis by simp
qed

lemma same_tree_names_set:
  assumes "same_tree t t'" and "\<And>a b. same_tree a b \<Longrightarrow> Q a = Q b"
  shows "set (map fst (filter (\<lambda>x. P (fst x) \<and> Q (snd x)) (listing t)))
         \<subseteq> set (map fst (filter (\<lambda>x. P (fst x) \<and> Q (snd x)) (listing t')))"
proof
  fix n assume "n \<in> set (map fst (filter (\<lambda>x. P (fst x) \<and> Q (snd x)) (listing t)))"
  then obtain a where a: "(n, a) \<in> set (listing t)" "P n" "Q a" by auto
  from same_tree_listing[OF assms(1)] have d: "distinct (map fst (listing t))" by simp
  with a have "map_of (listing t) n = Some a" by simp
  with same_tree_lookup[OF assms(1), of n] obtain b
    where b: "map_of (listing t') n = Some b" "same_tree a b" by auto
  then have "(n, b) \<in> set (listing t')" by (auto dest: map_of_SomeD)
  moreover from assms(2)[OF b(2)] a have "Q b" by simp
  ultimately show "n \<in> set (map fst (filter (\<lambda>x. P (fst x) \<and> Q (snd x)) (listing t')))"
    using a(2) by force
qed

lemma same_tree_sym: "same_tree a b \<Longrightarrow> same_tree b a"
proof (induction a b rule: same_tree.induct)
  case (2 es es')
  then show ?case by (auto simp del: set_map)
qed simp_all

lemma same_tree_sorted_names:
  assumes "same_tree t t'" and "\<And>a b. same_tree a b \<Longrightarrow> Q a = Q b"
  shows "sort (map fst (filter (\<lambda>x. P (fst x) \<and> Q (snd x)) (listing t)))
         = sort (map fst (filter (\<lambda>x. P (fst x) \<and> Q (snd x)) (listing t')))"
proof (rule sorted_distinct_set_unique)
  from same_tree_listing[OF assms(1)]
  show "distinct (sort (map fst (filter (\<lambda>x. P (fst x) \<and> Q (snd x)) (listing t))))"
    and "distinct (sort (map fst (filter (\<lambda>x. P (fst x) \<and> Q (snd x)) (listing t'))))"
    by (simp_all add: distinct_map_filter)
  have "set (map fst (filter (\<lambda>x. P (fst x) \<and> Q (snd x)) (listing t)))
      = set (map fst (filter (\<lambda>x. P (fst x) \<and> Q (snd x)) (listing t')))"
    using same_tree_names_set[OF assms(1), of Q P] same_tree_names_set[OF same_tree_sym[OF assms(1)], of Q P]
      assms(2) by blast
  then show "set (sort (map fst (filter (\<lambda>x. P (fst x) \<and> Q (snd x)) (listing t))))
      = set (sort (map fst (filter (\<lambda>x. P (fst x) \<and> Q (snd x)) (listing t'))))"
    by simp
qed simp_all

lemma same_tree_subdirs:
  assumes "same_tree root root'"
  shows "subdirs root = subdirs root'"
proof -
  have eq: "filter (\<lambda>(name, n). is_dir n) (glob t ''*'')
      = filter (\<lambda>x. fnmatch ''*'' (fst x) \<and> is_dir (snd x)) (listing t)" for t
    by (auto simp: glob_def intro: filter_cong)
  show ?thesis
    unfolding subdirs_def eq
    using assms same_tree_is_dir by (rule same_tree_sorted_names)
qed

lemma same_tree_glob:
  assumes "same_tree d d'"
  shows "sort (map fst (glob d pat)) = sort (map fst (glob d' pat))"
proof -
  have eq: "glob t pat = filter (\<lambda>x. fnmatch pat (fst x) \<and> (\<lambda>_. True) (snd x)) (listing t)" for t
    by (auto simp: glob_def intro: filter_cong)
  show ?thesis
    unfolding eq using assms by (rule same_tree_sorted_names) simp
qed

lemma same_tree_file_result:
  assumes "same_tree d d'"
  shows "file_result prs d f = file_result prs d' f"
  using same_tree_lookup[OF assms, of f] by (auto simp: file_result_def dest: same_tree_parse)

lemma visit_file_cong:
  assumes "file_result prs d f = file_result prs d' f"
  shows "visit_file prs ad s d f st = visit_file prs ad s d' f st"
proof -
  have "visit_file prs ad s d f st =
     (let st1 = (case file_result prs d f of
                   None \<Rightarrow> st\<lparr>n_failures := n_failures st + 1,
                              log := log st @ [LogException (ad @ [s, f])]\<rparr>
                 | Some article \<Rightarrow> st\<lparr>yielded := yielded st @ [article]\<rparr>);
          st2 = st1\<lparr>n_articles := n_articles st1 + 1, visited := visited st1 @ [(s, f)]\<rparr>
      in if n_articles st2 mod 20 = 0
         then st2\<lparr>log := log st2 @ [LogInfo s (n_articles st2) (n_failures st2)]\<rparr>
         else st2)" for d
    by (simp add: visit_file_def file_result_def split: option.splits)
  with assms show ?thesis by simp
qed

lemma same_tree_visit_subdir:
  assumes "same_tree root root'"
  shows "visit_subdir prs ad root = visit_subdir prs ad root'"
proof (intro ext)
  fix s st
  from same_tree_lookup[OF assms, of s]
  show "visit_subdir prs ad root s st = visit_subdir prs ad root' s st"
  proof (elim disjE conjE exE)
    assume "map_of (listing root) s = None" "map_of (listing root') s = None"
    then show ?thesis by (simp add: visit_subdir_def)
  next
    fix d d' assume d: "map_of (listing root) s = Some d" "map_of (listing root') s = Some d'"
      and same: "same_tree d d'"
    have "visit_file prs ad s d = visit_file prs ad s d'"
      using visit_file_cong[OF same_tree_file_result[OF same]] by (intro ext)
    with d same_tree_glob[OF same] show ?thesis by (simp add: visit_subdir_def)
  qed
qed

lemma same_tree_iter_articles:
  assumes "fs ad = Some root" and "fs' ad = Some root'" and "same_tree root root'"
  shows "iter_articles prs fs' ad = iter_articles prs fs ad"
  using assms same_tree_subdirs[OF assms(3)] same_tree_visit_subdir[OF assms(3), of prs ad]
  by (simp add: iter_articles_def assert_exists_def)

lemma same_tree_well_formed:
  assumes "same_tree root root'"
  shows "well_formed root"
proof -
  have "distinct (map fst (listing (snd x)))" if x: "x \<in> set (listing root)" for x
  proof -
    from x have "map_of (listing root) (fst x) \<noteq> None"
      by (simp add: map_of_eq_None_iff)
    with same_tree_lookup[OF assms, of "fst x"] obtain a b
      where a: "map_of (listing root) (fst x) = Some a" and ab: "same_tree a b" by auto
    from a have "(fst x, a) \<in> set (listing root)" by (rule map_of_SomeD)
    moreover from x have "(fst x, snd x) \<in> set (listing root)" by simp
    ultimately have "a = snd x"
      using same_tree_listing[OF assms] by (meson eq_key_imp_eq_value)
    with same_tree_listing[OF ab] show ?thesis by simp
  qed
  with same_tree_listing[OF assms] show ?thesis by (simp add: well_formed_def)
qed

section \<open>Properties of the text extractor\<close>

text \<open>
  The loop over the fields returns exactly when every field has its element, and then
  binds every field to the text of its element.
\<close>

lemma fill_parts_Inr:
  "fill_parts t ps acc = Inr r \<longleftrightarrow>
     (\<forall>p \<in> set ps. find_elem t p \<noteq> None) \<and>
     r = (\<lambda>k. if k \<in> set ps then map_option text_value (find_elem t k) else acc k)"
proof (induction ps arbitrary: acc)
  case Nil
  show ?case by auto
next
  case (Cons p ps)
  show ?case
  proof (cases "find_elem t p")
    case None
    then show ?thesis by auto
  next
    case (Some e)
    have eq: "(\<lambda>k. if k \<in> set ps then map_option text_value (find_elem t k)
               else (acc(p \<mapsto> text_value e)) k)
        = (\<lambda>k. if k \<in> set (p # ps) then map_option text_value (find_elem t k) else acc k)"
      using Some by (auto simp: fun_eq_iff)
    have step: "fill_parts t (p # ps) acc = fill_parts t ps (acc(p \<mapsto> text_value e))"
      using Some by simp
    have all: "(\<forall>q \<in> set (p # ps). find_elem t q \<noteq> None) = (\<forall>q \<in> set ps. find_elem t q \<noteq> None)"
      using Some by simp
    show ?thesis by (simp only: step all Cons.IH eq)
  qed
qed

lemma fill_parts_dom:
  assumes "fill_parts t ps Map.empty = Inr r"
  shows "dom r = set ps"
proof -
  from assms have all: "\<forall>p \<in> set ps. find_elem t p \<noteq> None"
    and r: "r = (\<lambda>k. if k \<in> set ps then map_option text_value (find_elem t k) else None)"
    unfolding fill_parts_Inr by simp_all
  show ?thesis
  proof (rule set_eqI)
    fix k
    show "k \<in> dom r \<longleftrightarrow> k \<in> set ps"
      using all unfolding r by (cases "k \<in> set ps") (auto simp: dom_def)
  qed
qed

lemma py_int_text_value:
  "(\<exists>n. py_int to_int (text_value e) = Inr n) \<longleftrightarrow>
   (\<exists>s n. elem_text e = Some s \<and> to_int s = Some n)"
  by (cases "elem_text e") (auto simp: text_value_def split: option.splits)

lemma extract_text_transform_error:
  "sty article = None \<Longrightarrow> extract_text_from_article sty to_int article = Inr Map.empty"
  by (simp add: extract_text_from_article_def)

lemma extract_text_returns_iff:
  assumes "sty article = Some t"
  shows "(\<exists>r. extract_text_from_article sty to_int article = Inr r) \<longleftrightarrow>
         (\<forall>p \<in> set text_fields. find_elem t p \<noteq> None) \<and>
         (\<exists>e s n. find_elem t ''pmcid'' = Some e \<and> elem_text e = Some s \<and> to_int s = Some n)"
proof
  assume "\<exists>r. extract_text_from_article sty to_int article = Inr r"
  then obtain r0 v n where f: "fill_parts t text_fields Map.empty = Inr r0"
    and v: "r0 ''pmcid'' = Some v" and n: "py_int to_int v = Inr n"
    using assms by (auto simp: extract_text_from_article_def split: sum.splits option.splits)
  from f have all: "\<forall>p \<in> set text_fields. find_elem t p \<noteq> None"
    and r0: "r0 = (\<lambda>k. if k \<in> set text_fields then map_option text_value (find_elem t k) else None)"
    unfolding fill_parts_Inr by simp_all
  from v r0 obtain e where e: "find_elem t ''pmcid'' = Some e" "v = text_value e"
    by (auto simp: text_fields_def)
  with n py_int_text_value[of to_int e] obtain s m where "elem_text e = Some s" "to_int s = Some m"
    by auto
  with all e show "(\<forall>p \<in> set text_fields. find_elem t p \<noteq> None) \<and>
         (\<exists>e s n. find_elem t ''pmcid'' = Some e \<and> elem_text e = Some s \<and> to_int s = Some n)"
    by blast
next
  assume h: "(\<forall>p \<in> set text_fields. find_elem t p \<noteq> None) \<and>
         (\<exists>e s n. find_elem t ''pmcid'' = Some e \<and> elem_text e = Some s \<and> to_int s = Some n)"
  then obtain e s n where e: "find_elem t ''pmcid'' = Some e" "elem_text e = Some s" "to_int s = Some n"
    by blast
  let ?r0 = "\<lambda>k. if k \<in> set text_fields then map_option text_value (find_elem t k) else None"
  from h have f: "fill_parts t text_fields Map.empty = Inr ?r0"
    unfolding fill_parts_Inr by simp
  have v: "?r0 ''pmcid'' = Some (PStr s)"
    using e by (simp add: text_fields_def text_value_def)
  from f v e(3) assms
  have "extract_text_from_article sty to_int article = Inr (?r0(''pmcid'' \<mapsto> PInt n))"
    by (simp add: extract_text_from_article_def)
  then show "\<exists>r. extract_text_from_article sty to_int article = Inr r" by blast
qed

lemma extract_text_dom:
  assumes "sty article = Some t" and "extract_text_from_article sty to_int article = Inr r"
  shows "dom r = set text_fields"
proof -
  from assms obtain r0 v n where f: "fill_parts t text_fields Map.empty = Inr r0"
    and r: "r = r0(''pmcid'' \<mapsto> PInt n)"
    by (auto simp: extract_text_from_article_def split: sum.splits option.splits)
  from fill_parts_dom[OF f] r show ?thesis by (auto simp: text_fields_def)
qed

section \<open>Properties of the record assembler\<close>

text \<open>The dict comprehension binds the name of every extractor in its list.\<close>

lemma assert_exists_None: "fs p = None \<Longrightarrow> assert_exists fs p = Inl FileNotFoundError"
  by (simp add: assert_exists_def)

lemma dom_assemble:
  "assemble xs article acc = Inr r \<Longrightarrow> dom r = dom acc \<union> set (map ename xs)"
proof (induction xs arbitrary: acc)
  case Nil
  then show ?case by simp
next
  case (Cons x xs)
  then show ?case by (auto split: sum.splits)
qed

lemma extract_loop_dom:
  "extract_loop xs as = (recs, ex) \<Longrightarrow> r \<in> set recs \<Longrightarrow> dom r = set (map ename xs)"
proof (induction as arbitrary: recs)
  case Nil
  then show ?case by simp
next
  case (Cons a as)
  show ?case
  proof (cases "assemble xs a Map.empty")
    case (Inl e)
    with Cons.prems show ?thesis by simp
  next
    case (Inr r0)
    obtain ys ex' where ys: "extract_loop xs as = (ys, ex')" by (cases "extract_loop xs as")
    with Inr Cons.prems have recs: "recs = r0 # ys" and "ex' = ex" by auto
    from dom_assemble[OF Inr] have "dom r0 = set (map ename xs)" by simp
    with Cons.IH[of ys] ys recs Cons.prems(2) \<open>ex' = ex\<close> show ?thesis by auto
  qed
qed

lemma extractor_names:
  "set (map ename (data_extractors env)) = {''coordinates'', ''metadata'', ''text''}"
  by (auto simp: data_extractors_def CoordinateExtractor_def MetadataExtractor_def
      TextExtractor_def text_name_def)

lemma extract_data_cases:
  "extract_data env fs ad flag = (recs, ex) \<Longrightarrow>
   (recs = []) \<or>
   (\<exists>st. iter_articles (parse env) fs ad = Inr st \<and> extract_loop (data_extractors env) (yielded st) = (recs, ex))"
  by (auto simp: extract_data_def split: sum.splits)

text \<open>
  A transform that raises is contained: the text extractor returns an empty mapping and
  the record of the article is assembled with it.
\<close>

lemma transform_error_does_not_abort:
  assumes "stylesheet env a = None" and "coordinates_extract env a = Inr c"
    and "metadata_extract env a = Inr m"
  shows "assemble (data_extractors env) a Map.empty
         = Inr [''coordinates'' \<mapsto> Frame c, ''metadata'' \<mapsto> Fields m, ''text'' \<mapsto> Fields Map.empty]"
  using assms
  by (simp add: data_extractors_def CoordinateExtractor_def MetadataExtractor_def
      TextExtractor_def text_name_def extract_text_transform_error)

section \<open>Properties of the writers and of the streaming loop\<close>

subsection \<open>One record handed to all writers\<close>

text \<open>
  A write that returns keeps the writer open and adds the record; with every key present
  and the writer open, a write can raise only for an I/O failure.
\<close>

lemma owned_append: "owned nm (xs @ ys) = owned nm xs @ owned nm ys"
  by (simp add: owned_def map_filter_def)

lemma writer_write_Inr:
  assumes "writer_write f w r = Inr w'" and "winv w"
  shows "winv w' \<and> received w' = received w @ [r] \<and> wname w' = wname w \<and> wdir w' = wdir w"
  using assms
  by (auto simp: writer_write_def winv_def owned_append owned_def map_filter_def
      split: if_splits option.splits)

lemma writer_write_Inl:
  assumes "writer_write f w r = Inl e" and "winv w" and "r (wname w) \<noteq> None"
  shows "e = OSError \<and> f (wname w) (length (received w))"
  using assms
  by (auto simp: writer_write_def winv_def split: if_splits option.splits)

lemma writer_write_fails:
  assumes "f (wname w) (length (received w))" and "winv w" and "r (wname w) \<noteq> None"
  shows "writer_write f w r = Inl OSError"
  using assms
  by (auto simp: writer_write_def winv_def split: if_splits option.splits)

lemma write_all_length: "write_all f r is ws = (res, ws') \<Longrightarrow> length ws' = length ws"
  by (induction "is" arbitrary: ws) (auto split: sum.splits)

lemma write_all_None:
  assumes "write_all f r is ws = (None, ws')" and "distinct is"
  shows "(\<forall>i \<in> set is. i < length ws \<longrightarrow> writer_write f (ws ! i) r = Inr (ws' ! i)) \<and>
         (\<forall>i. i \<notin> set is \<longrightarrow> ws' ! i = ws ! i)"
  using assms
proof (induction "is" arbitrary: ws)
  case Nil
  then show ?case by simp
next
  case (Cons i "is")
  from Cons.prems obtain w1 where w1: "writer_write f (ws ! i) r = Inr w1"
    and rest: "write_all f r is (ws[i := w1]) = (None, ws')"
    by (auto split: sum.splits)
  from Cons.prems have d: "distinct is" and ni: "i \<notin> set is" by auto
  note IH = Cons.IH[OF rest d]
  show ?case
  proof (intro conjI ballI allI impI)
    fix j assume j: "j \<in> set (i # is)" and lt: "j < length ws"
    show "writer_write f (ws ! j) r = Inr (ws' ! j)"
    proof (cases "j = i")
      case True
      with IH ni lt have "ws' ! j = w1" by simp
      with True w1 show ?thesis by simp
    next
      case False
      with j have "j \<in> set is" by simp
      with IH lt have "writer_write f (ws[i := w1] ! j) r = Inr (ws' ! j)" by simp
      with False show ?thesis by simp
    qed
  next
    fix j assume "j \<notin> set (i # is)"
    with IH show "ws' ! j = ws ! j" by simp
  qed
qed

lemma write_all_untouched:
  "write_all f r is ws = (res, ws') \<Longrightarrow> k \<notin> set is \<Longrightarrow> ws' ! k = ws ! k"
  by (induction "is" arbitrary: ws) (auto split: sum.splits)

lemma write_all_step:
  assumes "write_all f r is ws = (res, ws')" and "distinct is" and "k < length ws"
  shows "ws' ! k = ws ! k \<or> writer_write f (ws ! k) r = Inr (ws' ! k)"
  using assms
proof (induction "is" arbitrary: ws)
  case Nil
  then show ?case by simp
next
  case (Cons i "is")
  show ?case
  proof (cases "writer_write f (ws ! i) r")
    case (Inl e')
    with Cons.prems show ?thesis by auto
  next
    case (Inr w1)
    with Cons.prems have rest: "write_all f r is (ws[i := w1]) = (res, ws')" by simp
    from Cons.prems have d: "distinct is" and ni: "i \<notin> set is" by auto
    show ?thesis
    proof (cases "k = i")
      case True
      from write_all_untouched[OF rest ni] Cons.prems(3) True have "ws' ! k = w1" by simp
      with Inr True show ?thesis by simp
    next
      case False
      from Cons.IH[OF rest d] Cons.prems(3) False show ?thesis by simp
    qed
  qed
qed

lemma write_all_Some:
  assumes "write_all f r is ws = (Some e, ws')" and "distinct is"
  shows "\<exists>j \<in> set is. writer_write f (ws ! j) r = Inl e"
  using assms
proof (induction "is" arbitrary: ws)
  case Nil
  then show ?case by simp
next
  case (Cons i "is")
  show ?case
  proof (cases "writer_write f (ws ! i) r")
    case (Inl e')
    with Cons.prems show ?thesis by auto
  next
    case (Inr w1)
    with Cons.prems have rest: "write_all f r is (ws[i := w1]) = (Some e, ws')" by simp
    from Cons.prems have d: "distinct is" and ni: "i \<notin> set is" by auto
    from Cons.IH[OF rest d] obtain j where j: "j \<in> set is"
      "writer_write f (ws[i := w1] ! j) r = Inl e" by blast
    with ni have "j \<noteq> i" by auto
    with j show ?thesis by auto
  qed
qed

lemma write_all_upt_None:
  assumes "write_all f r [0..<length ws] ws = (None, ws')"
    and "\<forall>w \<in> set ws. winv w \<and> received w = done"
  shows "length ws' = length ws \<and>
         (\<forall>i < length ws. winv (ws' ! i) \<and> received (ws' ! i) = done @ [r] \<and>
            wname (ws' ! i) = wname (ws ! i) \<and> wdir (ws' ! i) = wdir (ws ! i) \<and>
            writer_write f (ws ! i) r = Inr (ws' ! i))"
proof -
  have len: "length ws' = length ws" using assms(1) by (rule write_all_length)
  have "winv (ws' ! i) \<and> received (ws' ! i) = done @ [r] \<and> wname (ws' ! i) = wname (ws ! i) \<and>
        wdir (ws' ! i) = wdir (ws ! i) \<and> writer_write f (ws ! i) r = Inr (ws' ! i)"
    if i: "i < length ws" for i
  proof -
    from write_all_None[OF assms(1)] i have w: "writer_write f (ws ! i) r = Inr (ws' ! i)" by simp
    from assms(2) i have "winv (ws ! i)" "received (ws ! i) = done" by auto
    with writer_write_Inr[OF w] w show ?thesis by simp
  qed
  with len show ?thesis by simp
qed

lemma write_all_upt_any:
  assumes "write_all f r [0..<length ws] ws = (res, ws')"
    and "\<forall>w \<in> set ws. winv w" and "i < length ws"
  shows "winv (ws' ! i) \<and> wname (ws' ! i) = wname (ws ! i) \<and> wdir (ws' ! i) = wdir (ws ! i)"
proof -
  from assms(2,3) have inv: "winv (ws ! i)" by simp
  from write_all_step[OF assms(1) _ assms(3)]
  have "ws' ! i = ws ! i \<or> writer_write f (ws ! i) r = Inr (ws' ! i)" by simp
  then show ?thesis
  proof
    assume "ws' ! i = ws ! i"
    with inv show ?thesis by simp
  next
    assume "writer_write f (ws ! i) r = Inr (ws' ! i)"
    from writer_write_Inr[OF this inv] show ?thesis by simp
  qed
qed

subsection \<open>The streaming loop\<close>

text \<open>
  Whatever the outcome, the loop leaves every writer open with its buffer in step; when
  it ends normally the generator ended normally and every writer has received every
  record; and when an append within the records yielded meets an I/O failure, the loop
  ends with that exception.
\<close>

lemma set_conv_all_nth: "(\<forall>w \<in> set ws. P w) = (\<forall>i < length ws. P (ws ! i))"
  by (rule all_set_conv_all_nth)

lemma stream_any:
  assumes "stream f recs ex ws n = (res, ws', n')" and "\<forall>w \<in> set ws. winv w"
  shows "length ws' = length ws \<and>
         (\<forall>i < length ws. winv (ws' ! i) \<and> wname (ws' ! i) = wname (ws ! i) \<and>
            wdir (ws' ! i) = wdir (ws ! i))"
  using assms
proof (induction recs arbitrary: ws n)
  case Nil
  then show ?case by simp
next
  case (Cons r rest)
  obtain res1 ws1 where w1: "write_all f r [0..<length ws] ws = (res1, ws1)"
    by (cases "write_all f r [0..<length ws] ws")
  have len1: "length ws1 = length ws" using w1 by (rule write_all_length)
  have inv1: "\<forall>i < length ws. winv (ws1 ! i) \<and> wname (ws1 ! i) = wname (ws ! i) \<and>
                wdir (ws1 ! i) = wdir (ws ! i)"
    using write_all_upt_any[OF w1 Cons.prems(2)] by simp
  show ?case
  proof (cases res1)
    case (Some e)
    with Cons.prems(1) w1 have "ws' = ws1" by simp
    with len1 inv1 show ?thesis by simp
  next
    case None
    with Cons.prems(1) w1 have rest: "stream f rest ex ws1 (n + 1) = (res, ws', n')" by simp
    from inv1 len1 have "\<forall>w \<in> set ws1. winv w" by (simp add: set_conv_all_nth)
    from Cons.IH[OF rest this] inv1 len1 show ?thesis by simp
  qed
qed

lemma stream_None:
  assumes "stream f recs ex ws n = (None, ws', n')"
    and "\<forall>w \<in> set ws. winv w \<and> received w = done"
  shows "ex = None \<and> n' = n + length recs \<and>
         (\<forall>i < length ws. received (ws' ! i) = done @ recs)"
  using assms
proof (induction recs arbitrary: ws n "done")
  case Nil
  then show ?case by simp
next
  case (Cons r rest)
  from Cons.prems(1) obtain ws1 where w1: "write_all f r [0..<length ws] ws = (None, ws1)"
    and rest: "stream f rest ex ws1 (n + 1) = (None, ws', n')"
    by (auto split: prod.splits option.splits)
  note step = write_all_upt_None[OF w1 Cons.prems(2)]
  then have "\<forall>w \<in> set ws1. winv w \<and> received w = done @ [r]"
    by (simp add: set_conv_all_nth)
  from Cons.IH[OF rest this] step show ?case by simp
qed

lemma stream_must_fail:
  assumes "\<forall>w \<in> set ws. winv w \<and> received w = done"
    and "\<forall>r \<in> set recs. \<forall>w \<in> set ws. r (wname w) \<noteq> None"
    and "i < length ws" and "k < length recs"
    and "f (wname (ws ! i)) (length done + k)"
  shows "\<exists>ws' n'. stream f recs ex ws n = (Some OSError, ws', n')"
  using assms
proof (induction recs arbitrary: ws n "done" k)
  case Nil
  then show ?case by simp
next
  case (Cons r rest)
  obtain res1 ws1 where w1: "write_all f r [0..<length ws] ws = (res1, ws1)"
    by (cases "write_all f r [0..<length ws] ws")
  show ?case
  proof (cases res1)
    case (Some e)
    from write_all_Some[OF w1[unfolded Some]] obtain j where j: "j < length ws"
      and wj: "writer_write f (ws ! j) r = Inl e" by auto
    from Cons.prems(1,2) j have "winv (ws ! j)" "r (wname (ws ! j)) \<noteq> None" by auto
    from writer_write_Inl[OF wj this] have "e = OSError" by simp
    with w1 Some show ?thesis by simp
  next
    case None
    note step = write_all_upt_None[OF w1[unfolded None] Cons.prems(1)]
    have inv1: "\<forall>w \<in> set ws1. winv w \<and> received w = done @ [r]"
      using step by (simp add: set_conv_all_nth)
    have keys1: "\<forall>r \<in> set rest. \<forall>w \<in> set ws1. r (wname w) \<noteq> None"
    proof (intro ballI)
      fix r' w assume r': "r' \<in> set rest" and "w \<in> set ws1"
      then obtain j where j: "j < length ws1" "w = ws1 ! j" by (auto simp: in_set_conv_nth)
      with step have "wname w = wname (ws ! j)" "j < length ws" by simp_all
      with Cons.prems(2) r' show "r' (wname w) \<noteq> None" by auto
    qed
    show ?thesis
    proof (cases k)
      case 0
      from Cons.prems(1,2,3) have "winv (ws ! i)" "r (wname (ws ! i)) \<noteq> None"
        "received (ws ! i) = done" by auto
      with Cons.prems(5) 0 writer_write_fails[of f "ws ! i" r]
      have "writer_write f (ws ! i) r = Inl OSError" by simp
      with step Cons.prems(3) show ?thesis by simp
    next
      case (Suc k')
      with Cons.prems(4) have k': "k' < length rest" by simp
      from step Cons.prems(3) have i1: "i < length ws1" "wname (ws1 ! i) = wname (ws ! i)" by simp_all
      from Cons.prems(5) Suc i1 have "f (wname (ws1 ! i)) (length (done @ [r]) + k')" by simp
      from Cons.IH[OF inv1 keys1 i1(1) k' this, of "n + 1"] w1 None show ?thesis by simp
    qed
  qed
qed

subsection \<open>Entering and leaving the exit stack\<close>

lemma exit_stack_nth:
  assumes "distinct stack" and "k < length ws"
  shows "length (exit_stack stack ws) = length ws \<and>
         exit_stack stack ws ! k = (if k \<in> set stack then writer_exit (ws ! k) else ws ! k)"
  using assms
proof (induction stack arbitrary: ws)
  case Nil
  then show ?case by (simp add: exit_stack_def)
next
  case (Cons i stack)
  have unf: "exit_stack (i # stack) ws = exit_stack stack (ws[i := writer_exit (ws ! i)])"
    by (simp add: exit_stack_def)
  from Cons.prems have d: "distinct stack" and ni: "i \<notin> set stack"
    and k: "k < length (ws[i := writer_exit (ws ! i)])" by auto
  have "k \<in> set stack \<Longrightarrow> k \<noteq> i" using ni by auto
  with Cons.IH[OF d k] ni Cons.prems(2) show ?case
    unfolding unf by (auto simp: nth_list_update)
qed

lemma stream_None_count:
  "stream f recs ex ws n = (None, ws', n') \<Longrightarrow> ex = None \<and> n' = n + length recs"
proof (induction recs arbitrary: ws n)
  case Nil
  then show ?case by simp
next
  case (Cons r rest)
  from Cons.prems obtain ws1 where "stream f rest ex ws1 (n + 1) = (None, ws', n')"
    by (auto split: prod.splits option.splits)
  from Cons.IH[OF this] show ?case by simp
qed

lemma run_Inr_D:
  fixes env :: "('d, 'r) env"
  assumes "extract_data_to_csv env fs ad od flag w = (Inr v, w')"
  shows "\<exists>out w1 ws1 stack recs ws2 n.
           fs ad \<noteq> None \<and>
           get_output_dir ad od flag w = (Inr out, w1) \<and>
           enter_all (open_fails env) (all_writers out) = (None, ws1, stack) \<and>
           extract_data env fs ad flag = (recs, None) \<and>
           stream (write_fails env) recs None ws1 0 = (None, ws2, n) \<and>
           v = (out, 0) \<and>
           w' = w1\<lparr>writers := exit_stack stack ws2,
                   files := (files w1)(out @ [''info.json''] \<mapsto> info_json n)\<rparr>"
proof -
  from assms have root: "fs ad \<noteq> None"
    by (auto simp: extract_data_to_csv_def assert_exists_def split: option.splits)
  then have ae: "assert_exists fs ad = Inr ()" by (auto simp: assert_exists_def)
  obtain r1 w1 where g: "get_output_dir ad od flag w = (r1, w1)"
    by (cases "get_output_dir ad od flag w")
  with assms ae obtain out where out: "r1 = Inr out"
    by (cases r1) (auto simp: extract_data_to_csv_def)
  obtain res1 ws1 stack
    where en: "enter_all (open_fails env) (all_writers out :: 'r writer list) = (res1, ws1, stack)"
    using prod_cases3 by blast
  with assms ae g out have res1: "res1 = None"
    by (cases res1) (auto simp: extract_data_to_csv_def)
  obtain recs ex where ed: "extract_data env fs ad flag = (recs, ex)"
    by (cases "extract_data env fs ad flag")
  obtain res2 ws2 n where st: "stream (write_fails env) recs ex ws1 0 = (res2, ws2, n)"
    using prod_cases3 by blast
  with assms ae g out en res1 ed have res2: "res2 = None"
    by (cases res2) (auto simp: extract_data_to_csv_def)
  have "ex = None"
    using st res2 stream_None_count[of "write_fails env" recs ex ws1 0 ws2 n] by simp
  with assms ae g out en res1 ed st res2 root show ?thesis
    by (auto simp: extract_data_to_csv_def)
qed

lemma enter_all_writers_None:
  assumes "enter_all fails (all_writers out) = (None, ws1, stack)"
  shows "stack = [2, 1, 0] \<and> map wname ws1 = writer_names \<and> length ws1 = 3 \<and>
         (\<forall>w \<in> set ws1. winv w \<and> received w = [] \<and> wdir w = out)"
  using assms
  by (auto simp: enter_all_def all_writers_def from_extractor_def writer_enter_def winv_def
      owned_def map_filter_def writer_names_def text_name_def numeral_2_eq_2
      split: if_splits)

lemma enter_all_writers_succeeds:
  assumes "\<forall>nm \<in> set writer_names. \<not> fails nm"
  shows "\<exists>ws1 stack. enter_all fails (all_writers out) = (None, ws1, stack)"
  using assms
  by (simp add: enter_all_def all_writers_def from_extractor_def writer_enter_def
      writer_names_def text_name_def)

lemma writer_exit_winv:
  assumes "winv w"
  shows "wstatus (writer_exit w) = CLOSED \<and> wbuffer (writer_exit w) = [] \<and>
         wfile (writer_exit w) = Some (owned (wname w) (received w)) \<and>
         wname (writer_exit w) = wname w \<and> received (writer_exit w) = received w \<and>
         wdir (writer_exit w) = wdir w"
  using assms by (simp add: winv_def writer_exit_def)

lemma exit_stack_all:
  assumes "length ws = 3"
  shows "exit_stack [2, 1, 0] ws = map writer_exit ws"
proof (rule nth_equalityI)
  show "length (exit_stack [2, 1, 0] ws) = length (map writer_exit ws)"
    using exit_stack_nth[of "[2, 1, 0]" 0 ws] assms by simp
next
  fix i assume "i < length (exit_stack [2, 1, 0] ws)"
  then have i: "i < 3" using exit_stack_nth[of "[2, 1, 0]" 0 ws] assms by simp
  then have "i \<in> set [2, 1, 0::nat]" by auto
  with exit_stack_nth[of "[2, 1, 0]" i ws] assms i
  show "exit_stack [2, 1, 0] ws ! i = map writer_exit ws ! i" by simp
qed

lemma owned_length:
  assumes "\<forall>r \<in> set recs. r nm \<noteq> None"
  shows "length (owned nm recs) = length recs"
  using assms by (induction recs) (auto simp: owned_def map_filter_def)

subsection \<open>The whole run\<close>

text \<open>Without an I/O failure, every write returns and the loop ends normally.\<close>

lemma write_all_succeeds:
  assumes "\<forall>w \<in> set ws. winv w" and "\<forall>w \<in> set ws. r (wname w) \<noteq> None"
    and "\<forall>w \<in> set ws. \<not> f (wname w) (length (received w))"
  shows "\<exists>ws'. write_all f r [0..<length ws] ws = (None, ws')"
proof -
  obtain res ws' where w: "write_all f r [0..<length ws] ws = (res, ws')"
    by (cases "write_all f r [0..<length ws] ws")
  have "res = None"
  proof (cases res)
    case (Some e)
    from write_all_Some[OF w[unfolded Some]] obtain j where j: "j < length ws"
      and wj: "writer_write f (ws ! j) r = Inl e" by auto
    from assms j have "winv (ws ! j)" "r (wname (ws ! j)) \<noteq> None"
      "\<not> f (wname (ws ! j)) (length (received (ws ! j)))" by auto
    with writer_write_Inl[OF wj] show ?thesis by simp
  qed simp
  with w show ?thesis by simp
qed

lemma stream_succeeds:
  assumes "\<forall>w \<in> set ws. winv w \<and> received w = done"
    and "\<forall>r \<in> set recs. \<forall>w \<in> set ws. r (wname w) \<noteq> None"
    and "\<forall>w \<in> set ws. \<forall>k < length recs. \<not> f (wname w) (length done + k)"
  shows "\<exists>ws' n'. stream f recs None ws n = (None, ws', n')"
  using assms
proof (induction recs arbitrary: ws n "done")
  case Nil
  then show ?case by simp
next
  case (Cons r rest)
  have "\<forall>w \<in> set ws. \<not> f (wname w) (length (received w))"
    using Cons.prems(1,3) by force
  with write_all_succeeds[of ws r f] Cons.prems(1,2)
  obtain ws1 where w1: "write_all f r [0..<length ws] ws = (None, ws1)" by auto
  note step = write_all_upt_None[OF w1 Cons.prems(1)]
  have inv1: "\<forall>w \<in> set ws1. winv w \<and> received w = done @ [r]"
    using step by (simp add: set_conv_all_nth)
  have names: "wname w \<in> wname ` set ws" if "w \<in> set ws1" for w
  proof -
    from that obtain j where j: "j < length ws1" "w = ws1 ! j" by (auto simp: in_set_conv_nth)
    with step have "wname w = wname (ws ! j)" "j < length ws" by simp_all
    then show ?thesis by auto
  qed
  have keys1: "\<forall>r \<in> set rest. \<forall>w \<in> set ws1. r (wname w) \<noteq> None"
    using Cons.prems(2) names by fastforce
  have ok1: "\<forall>w \<in> set ws1. \<forall>k < length rest. \<not> f (wname w) (length (done @ [r]) + k)"
  proof (intro ballI allI impI)
    fix w k assume w: "w \<in> set ws1" and k: "k < length rest"
    from names[OF w] obtain w0 where w0: "w0 \<in> set ws" "wname w = wname w0" by auto
    from k have "Suc k < length (r # rest)" by simp
    with Cons.prems(3) w0(1) have "\<not> f (wname w0) (length done + Suc k)" by blast
    with w0 show "\<not> f (wname w) (length (done @ [r]) + k)" by simp
  qed
  from Cons.IH[OF inv1 keys1 ok1, of "n + 1"] w1 show ?case by simp
qed

lemma extract_data_dom:
  fixes env :: "('d, 'r) env"
  assumes "extract_data env fs ad flag = (recs, ex)" and "r \<in> set recs"
  shows "dom r = set writer_names"
proof -
  have names: "set (map ename (data_extractors env)) = set writer_names"
    using extractor_names[of env] by (auto simp: writer_names_def)
  from extract_data_cases[OF assms(1)] assms(2)
  obtain st :: "'d iter_state"
    where "extract_loop (data_extractors env) (yielded st) = (recs, ex)" by auto
  from extract_loop_dom[OF this assms(2)] names show ?thesis by simp
qed

lemma get_output_dir_resolves:
  assumes "od = None \<longrightarrow> ad \<noteq> []"
  shows "get_output_dir ad od flag w = (Inr (resolved_output_dir ad od flag), mkdir (resolved_output_dir ad od flag) w)"
  using assms
  by (cases od) (simp_all add: get_output_dir_def with_name_def resolved_output_dir_def)

lemma get_output_dir_Inr:
  assumes "get_output_dir ad od flag w = (Inr out, w1)"
  shows "out = resolved_output_dir ad od flag \<and> w1 = mkdir out w \<and> (od = None \<longrightarrow> ad \<noteq> [])"
  using assms
  by (cases od) (auto simp: get_output_dir_def with_name_def resolved_output_dir_def split: if_splits)

lemma mkdir_fields: "files (mkdir p w) = files w \<and> writers (mkdir p w) = writers w \<and> p \<in> dirs (mkdir p w)"
proof -
  have "take (length p) p \<in> (\<lambda>k. take k p) ` {0..<Suc (length p)}" by (intro imageI) simp
  then show ?thesis by (simp add: mkdir_def)
qed

text \<open>
  With the corpus root present, the output directory resolved and no failure on opening,
  the run is the streaming loop over the three open writers, followed by their exits and,
  if the loop ended normally, by writing \<^verbatim>\<open>info.json\<close>.
\<close>

lemma run_after_open:
  fixes env :: "('d, 'r) env"
  assumes root: "fs ad \<noteq> None" and out: "od = None \<longrightarrow> ad \<noteq> []"
    and opens: "\<forall>nm \<in> set writer_names. \<not> open_fails env nm"
    and recs: "extract_data env fs ad flag = (recs, ex)"
  shows "\<exists>ws1 res ws2 n.
           enter_all (open_fails env) (all_writers (resolved_output_dir ad od flag) :: 'r writer list)
             = (None, ws1, [2, 1, 0]) \<and>
           length ws1 = 3 \<and> map wname ws1 = writer_names \<and>
           (\<forall>w \<in> set ws1. winv w \<and> received w = []) \<and>
           stream (write_fails env) recs ex ws1 0 = (res, ws2, n) \<and>
           extract_data_to_csv env fs ad od flag w =
             (case res of
                Some e \<Rightarrow> (Inl e, (mkdir (resolved_output_dir ad od flag) w)\<lparr>writers := map writer_exit ws2\<rparr>)
              | None \<Rightarrow> (Inr (resolved_output_dir ad od flag, 0),
                         (mkdir (resolved_output_dir ad od flag) w)
                           \<lparr>writers := map writer_exit ws2,
                            files := (files w)(resolved_output_dir ad od flag @ [''info.json''] \<mapsto> info_json n)\<rparr>))"
proof -
  let ?out = "resolved_output_dir ad od flag"
  from root have ae: "assert_exists fs ad = Inr ()" by (auto simp: assert_exists_def)
  note g = get_output_dir_resolves[OF out, of flag w]
  from enter_all_writers_succeeds[OF opens, of ?out] obtain ws1 stack
    where en: "enter_all (open_fails env) (all_writers ?out :: 'r writer list) = (None, ws1, stack)"
    by blast
  note e1 = enter_all_writers_None[OF en]
  obtain res ws2 n where st: "stream (write_fails env) recs ex ws1 0 = (res, ws2, n)"
    using prod_cases3 by blast
  from e1 have inv: "\<forall>w \<in> set ws1. winv w" by simp
  from stream_any[OF st inv] e1 have "length ws2 = 3" by simp
  then have ex2: "exit_stack [2, 1, 0] ws2 = map writer_exit ws2" by (rule exit_stack_all)
  have "extract_data_to_csv env fs ad od flag w =
             (case res of
                Some e \<Rightarrow> (Inl e, (mkdir ?out w)\<lparr>writers := map writer_exit ws2\<rparr>)
              | None \<Rightarrow> (Inr (?out, 0),
                         (mkdir ?out w)\<lparr>writers := map writer_exit ws2,
                            files := (files w)(?out @ [''info.json''] \<mapsto> info_json n)\<rparr>))"
    using ae g en e1 recs st ex2 mkdir_fields[of ?out w]
    by (simp add: extract_data_to_csv_def split: option.splits)
  with en e1 st show ?thesis by auto
qed

lemma run_Inl_files:
  assumes "extract_data_to_csv env fs ad od flag w = (Inl e, w')"
  shows "files w' = files w"
proof -
  have g: "get_output_dir ad od flag w = (r, w1) \<Longrightarrow> files w1 = files w" for r w1
    by (auto simp: get_output_dir_def mkdir_def split: sum.splits)
  obtain r w1 where gw: "get_output_dir ad od flag w = (r, w1)"
    by (cases "get_output_dir ad od flag w")
  from assms gw g[OF gw] show ?thesis
    by (auto simp: extract_data_to_csv_def split: sum.splits prod.splits option.splits)
qed

lemma run_completes:
  fixes env :: "('d, 'r) env"
  assumes root: "fs ad \<noteq> None" and out: "od = None \<longrightarrow> ad \<noteq> []"
    and opens: "\<forall>nm \<in> set writer_names. \<not> open_fails env nm"
    and recs: "extract_data env fs ad flag = (recs, None)"
    and writes: "\<forall>nm \<in> set writer_names. \<forall>k < length recs. \<not> write_fails env nm k"
  shows "\<exists>w'. extract_data_to_csv env fs ad od flag w = (Inr (resolved_output_dir ad od flag, 0), w')"
proof -
  from run_after_open[OF root out opens recs, of w] obtain ws1 res ws2 n
    where ws1: "map wname ws1 = writer_names" "\<forall>w \<in> set ws1. winv w \<and> received w = []"
      and st: "stream (write_fails env) recs None ws1 0 = (res, ws2, n)"
      and run: "extract_data_to_csv env fs ad od flag w =
             (case res of
                Some e \<Rightarrow> (Inl e, (mkdir (resolved_output_dir ad od flag) w)\<lparr>writers := map writer_exit ws2\<rparr>)
              | None \<Rightarrow> (Inr (resolved_output_dir ad od flag, 0),
                         (mkdir (resolved_output_dir ad od flag) w)
                           \<lparr>writers := map writer_exit ws2,
                            files := (files w)(resolved_output_dir ad od flag @ [''info.json''] \<mapsto> info_json n)\<rparr>))"
    by blast
  from ws1(1) have names: "wname ` set ws1 = set writer_names" by (metis set_map)
  have keys: "\<forall>r \<in> set recs. \<forall>w \<in> set ws1. r (wname w) \<noteq> None"
  proof (intro ballI)
    fix r w assume "r \<in> set recs" "w \<in> set ws1"
    with extract_data_dom[OF recs] names have "wname w \<in> dom r" by auto
    then show "r (wname w) \<noteq> None" by auto
  qed
  have ok: "\<forall>w \<in> set ws1. \<forall>k < length recs. \<not> write_fails env (wname w) (length ([] :: 'r article_data list) + k)"
    using writes names by auto
  from stream_succeeds[OF ws1(2) keys ok, of 0] st have "res = None" by auto
  with run show ?thesis by simp
qed

subsection \<open>A run that returns\<close>

lemma completed_run:
  fixes env :: "('d, 'r) env"
  assumes "extract_data_to_csv env fs ad od flag w = (Inr v, w')"
  shows "\<exists>recs. extract_data env fs ad flag = (recs, None) \<and>
           map wname (writers w') = [''metadata'', ''text'', ''coordinates''] \<and>
           (\<forall>wr \<in> set (writers w').
              received wr = recs \<and> wstatus wr = CLOSED \<and>
              wfile wr = Some (owned (wname wr) recs) \<and>
              length (owned (wname wr) recs) = length recs) \<and>
           files w' (fst v @ [''info.json'']) = Some (info_json (length recs))"
proof -
  from run_Inr_D[OF assms] obtain out w1 ws1 stack recs ws2 n
    where en: "enter_all (open_fails env) (all_writers out) = (None, ws1, stack)"
      and recs: "extract_data env fs ad flag = (recs, None)"
      and st: "stream (write_fails env) recs None ws1 0 = (None, ws2, n)"
      and v: "v = (out, 0)"
      and w': "w' = w1\<lparr>writers := exit_stack stack ws2,
                   files := (files w1)(out @ [''info.json''] \<mapsto> info_json n)\<rparr>"
    by blast
  note e1 = enter_all_writers_None[OF en]
  from e1 have inv: "\<forall>w \<in> set ws1. winv w" and inv0: "\<forall>w \<in> set ws1. winv w \<and> received w = []"
    by simp_all
  note any = stream_any[OF st inv]
  note fin = stream_None[OF st inv0]
  from any e1 have len2: "length ws2 = 3" by simp
  from e1 have stack: "stack = [2, 1, 0]" by simp
  have ws': "writers w' = map writer_exit ws2"
    unfolding w' stack using exit_stack_all[OF len2] by simp
  have names2: "map wname ws2 = map wname ws1"
    using any by (intro nth_equalityI) simp_all
  have each: "received (writer_exit x) = recs \<and> wstatus (writer_exit x) = CLOSED \<and>
        wfile (writer_exit x) = Some (owned (wname (writer_exit x)) recs) \<and>
        length (owned (wname (writer_exit x)) recs) = length recs \<and>
        wname (writer_exit x) = wname x"
    if x: "x \<in> set ws2" for x
  proof -
    from x obtain i where i: "i < length ws2" "x = ws2 ! i" by (auto simp: in_set_conv_nth)
    with any fin have wx: "winv x" "received x = recs" "wname x = wname (ws1 ! i)" by simp_all
    from i any e1 have "wname (ws1 ! i) \<in> set writer_names"
      by (metis length_map nth_map nth_mem)
    with extract_data_dom[OF recs] wx have "\<forall>r \<in> set recs. r (wname x) \<noteq> None" by auto
    from owned_length[OF this] writer_exit_winv[OF wx(1)] wx show ?thesis by simp
  qed
  have "map wname (writers w') = [''metadata'', ''text'', ''coordinates'']"
    using each names2 e1 unfolding ws' by (simp add: writer_names_def comp_def cong: map_cong)
  moreover have "\<forall>wr \<in> set (writers w').
              received wr = recs \<and> wstatus wr = CLOSED \<and>
              wfile wr = Some (owned (wname wr) recs) \<and>
              length (owned (wname wr) recs) = length recs"
  proof (intro ballI)
    fix wr assume "wr \<in> set (writers w')"
    then obtain x where x: "x \<in> set ws2" "wr = writer_exit x" unfolding ws' by auto
    from each[OF x(1)] show "received wr = recs \<and> wstatus wr = CLOSED \<and>
              wfile wr = Some (owned (wname wr) recs) \<and>
              length (owned (wname wr) recs) = length recs"
      unfolding x(2) by blast
  qed
  moreover have "files w' (fst v @ [''info.json'']) = Some (info_json (length recs))"
    using fin v unfolding w' by simp
  ultimately show ?thesis using recs by (intro exI[of _ recs]) simp
qed

subsection \<open>A run in which a write raises\<close>

lemma write_failure_unwinds:
  fixes env :: "('d, 'r) env"
  assumes root: "fs ad \<noteq> None" and out: "od = None \<longrightarrow> ad \<noteq> []"
    and opens: "\<forall>nm \<in> set writer_names. \<not> open_fails env nm"
    and recs: "extract_data env fs ad flag = (recs, ex)"
    and k: "k < length recs" and nm: "nm \<in> set writer_names"
    and fail: "write_fails env nm k"
  shows "\<exists>w'. extract_data_to_csv env fs ad od flag w = (Inl OSError, w') \<and>
           files w' = files w \<and>
           map wname (writers w') = writer_names \<and>
           (\<forall>wr \<in> set (writers w').
              wstatus wr = CLOSED \<and> wbuffer wr = [] \<and>
              wfile wr = Some (owned (wname wr) (received wr)))"
proof -
  let ?out = "resolved_output_dir ad od flag"
  from run_after_open[OF root out opens recs, of w] obtain ws1 res ws2 n
    where ws1: "length ws1 = 3" "map wname ws1 = writer_names"
      "\<forall>w \<in> set ws1. winv w \<and> received w = []"
      and st: "stream (write_fails env) recs ex ws1 0 = (res, ws2, n)"
      and run: "extract_data_to_csv env fs ad od flag w =
             (case res of
                Some e \<Rightarrow> (Inl e, (mkdir ?out w)\<lparr>writers := map writer_exit ws2\<rparr>)
              | None \<Rightarrow> (Inr (?out, 0),
                         (mkdir ?out w)
                           \<lparr>writers := map writer_exit ws2,
                            files := (files w)(?out @ [''info.json''] \<mapsto> info_json n)\<rparr>))"
    by blast
  from ws1(2) have names: "wname ` set ws1 = set writer_names" by (metis set_map)
  have keys: "\<forall>r \<in> set recs. \<forall>w \<in> set ws1. r (wname w) \<noteq> None"
  proof (intro ballI)
    fix r w assume "r \<in> set recs" "w \<in> set ws1"
    with extract_data_dom[OF recs] names have "wname w \<in> dom r" by auto
    then show "r (wname w) \<noteq> None" by auto
  qed
  from nm names have "nm \<in> wname ` set ws1" by simp
  then obtain x where "x \<in> set ws1" "wname x = nm" by (auto simp: image_iff)
  then obtain i where i: "i < length ws1" "wname (ws1 ! i) = nm"
    by (auto simp: in_set_conv_nth)
  from fail i have f: "write_fails env (wname (ws1 ! i)) (length ([] :: 'r article_data list) + k)"
    by simp
  from stream_must_fail[where f = "write_fails env" and ex = ex and n = 0, OF ws1(3) keys i(1) k f] st
  have res: "res = Some OSError" by auto
  from ws1(3) have inv: "\<forall>w \<in> set ws1. winv w" by simp
  note any = stream_any[OF st inv]
  have names2: "map wname ws2 = map wname ws1"
    using any by (intro nth_equalityI) simp_all
  have each: "wstatus (writer_exit x) = CLOSED \<and> wbuffer (writer_exit x) = [] \<and>
        wfile (writer_exit x) = Some (owned (wname (writer_exit x)) (received (writer_exit x))) \<and>
        wname (writer_exit x) = wname x"
    if x: "x \<in> set ws2" for x
  proof -
    from x obtain j where "j < length ws2" "x = ws2 ! j" by (auto simp: in_set_conv_nth)
    with any have "winv x" by simp
    from writer_exit_winv[OF this] show ?thesis by simp
  qed
  let ?w' = "(mkdir ?out w)\<lparr>writers := map writer_exit ws2\<rparr>"
  have run': "extract_data_to_csv env fs ad od flag w = (Inl OSError, ?w')"
    using run res by simp
  have files: "files ?w' = files w" using mkdir_fields[of ?out w] by simp
  have nms: "map wname (writers ?w') = writer_names"
    using each names2 ws1(2) by (simp add: comp_def cong: map_cong)
  have closed: "\<forall>wr \<in> set (writers ?w').
              wstatus wr = CLOSED \<and> wbuffer wr = [] \<and>
              wfile wr = Some (owned (wname wr) (received wr))"
  proof (intro ballI)
    fix wr assume "wr \<in> set (writers ?w')"
    then obtain x where x: "x \<in> set ws2" "wr = writer_exit x" by auto
    from each[OF x(1)] show "wstatus wr = CLOSED \<and> wbuffer wr = [] \<and>
              wfile wr = Some (owned (wname wr) (received wr))"
      unfolding x(2) by blast
  qed
  from run' files nms closed show ?thesis by (intro exI[of _ ?w']) simp
qed

section \<open>The small corpus, evaluated\<close>

lemma example_env_sel:
  "parse example_env = example_parse"
  "stylesheet example_env = example_stylesheet"
  "str_to_int example_env = example_str_to_int"
  "open_fails example_env = (\<lambda>nm. False)"
  "write_fails example_env = (\<lambda>nm k. False)"
  "coordinates_extract example_env = (\<lambda>d. Inr (if d = ''30'' then [] else [(10, -20, 30)]))"
  "metadata_extract example_env = (\<lambda>d. Inr [''pmcid'' \<mapsto> PStr d])"
  "parse failing_env = example_parse"
  "stylesheet failing_env = example_stylesheet"
  "str_to_int failing_env = example_str_to_int"
  "open_fails failing_env = (\<lambda>nm. False)"
  "write_fails failing_env = (\<lambda>nm k. nm = ''text'' \<and> k = 1)"
  "coordinates_extract failing_env = coordinates_extract example_env"
  "metadata_extract failing_env = metadata_extract example_env"
  by (simp_all add: example_env_def failing_env_def)

lemma example_fs_root: "example_fs example_dir = Some example_root"
  by (simp add: example_fs_def)

lemma example_iter:
  "iter_articles example_parse example_fs example_dir =
     Inr \<lparr>yielded = [''10'', ''20'', ''30''],
          visited = [(''000'', ''pmcid_10.xml''), (''000'', ''pmcid_15.xml''),
                     (''000'', ''pmcid_20.xml''), (''001'', ''pmcid_30.xml'')],
          n_articles = 4, n_failures = 1,
          log = [LogException [''data'', ''articles'', ''000'', ''pmcid_15.xml'']]\<rparr>"
  by (simp add: iter_articles_def assert_exists_def subdirs_def glob_def visit_subdir_def
      visit_file_def init_state_def example_fs_def example_root_def example_dir_def
      example_parse_def)

lemma example_extract_data:
  "extract_data example_env example_fs example_dir flag =
     extract_loop (data_extractors example_env) [''10'', ''20'', ''30'']"
  by (simp add: extract_data_def example_env_sel example_iter assert_exists_def example_fs_root)

lemma failing_extract_data:
  "extract_data failing_env example_fs example_dir flag =
     extract_data example_env example_fs example_dir flag"
  by (simp add: extract_data_def example_env_sel example_iter assert_exists_def example_fs_root
      data_extractors_def CoordinateExtractor_def MetadataExtractor_def TextExtractor_def)

lemma example_extract_text:
  "extract_text_from_article example_stylesheet example_str_to_int ''10'' =
     Inr [''pmcid'' \<mapsto> PInt 10, ''title'' \<mapsto> PStr ''A title'', ''keywords'' \<mapsto> PNone,
          ''abstract'' \<mapsto> PStr ''An abstract'', ''body'' \<mapsto> PStr ''A body'']"
  "extract_text_from_article example_stylesheet example_str_to_int ''20'' = Inr Map.empty"
  "extract_text_from_article example_stylesheet example_str_to_int ''30'' =
     Inr [''pmcid'' \<mapsto> PInt 30, ''title'' \<mapsto> PStr ''A title'', ''keywords'' \<mapsto> PNone,
          ''abstract'' \<mapsto> PStr ''An abstract'', ''body'' \<mapsto> PStr ''A body'']"
  "extract_text_from_article example_stylesheet example_str_to_int [] = Inl TypeError"
  by (simp_all add: extract_text_from_article_def example_stylesheet_def example_str_to_int_def
      text_fields_def find_elem_def text_value_def fun_upd_twist)

lemma example_records:
  "\<exists>r10 r20 r30. extract_data example_env example_fs example_dir flag = ([r10, r20, r30], None) \<and>
     r10 ''coordinates'' = Some (Frame [(10, -20, 30)]) \<and>
     r20 ''coordinates'' = Some (Frame [(10, -20, 30)]) \<and>
     r30 ''coordinates'' = Some (Frame []) \<and>
     r20 ''text'' = Some (Fields Map.empty)"
  by (simp add: example_extract_data data_extractors_def CoordinateExtractor_def
      MetadataExtractor_def TextExtractor_def example_env_sel text_name_def example_extract_text)

lemma broken_iter:
  "iter_articles example_parse broken_fs example_dir =
     Inr \<lparr>yielded = [], visited = [(''000'', ''pmcid_1.xml''), (''000'', ''pmcid_2.xml'')],
          n_articles = 2, n_failures = 2,
          log = [LogException [''data'', ''articles'', ''000'', ''pmcid_1.xml''],
                 LogException [''data'', ''articles'', ''000'', ''pmcid_2.xml'']]\<rparr>"
  by (simp add: iter_articles_def assert_exists_def subdirs_def glob_def visit_subdir_def
      visit_file_def init_state_def broken_fs_def broken_root_def example_dir_def
      example_parse_def)

lemma other_fs_root:
  "broken_fs example_dir = Some broken_root"
  "no_pmcid_fs example_dir = Some no_pmcid_root"
  "example_fs_reordered example_dir = Some example_root_reordered"
  by (simp_all add: broken_fs_def no_pmcid_fs_def example_fs_reordered_def)

lemma broken_extract_data:
  "extract_data example_env broken_fs example_dir flag = ([], None)"
  by (simp add: extract_data_def example_env_sel broken_iter assert_exists_def other_fs_root)

lemma no_pmcid_iter:
  "iter_articles example_parse no_pmcid_fs example_dir =
     Inr \<lparr>yielded = [[], ''40''], visited = [(''000'', ''pmcid_1.xml''), (''000'', ''pmcid_40.xml'')],
          n_articles = 2, n_failures = 0, log = []\<rparr>"
  by (simp add: iter_articles_def assert_exists_def subdirs_def glob_def visit_subdir_def
      visit_file_def init_state_def no_pmcid_fs_def no_pmcid_root_def example_dir_def
      example_parse_def)

lemma no_pmcid_extract_data:
  "extract_data example_env no_pmcid_fs example_dir flag = ([], Some TypeError)"
  by (simp add: extract_data_def example_env_sel no_pmcid_iter assert_exists_def other_fs_root
      data_extractors_def CoordinateExtractor_def MetadataExtractor_def TextExtractor_def
      example_extract_text)

lemma example_writer_names: "\<forall>nm \<in> set writer_names. \<not> open_fails example_env nm"
  "\<forall>nm \<in> set writer_names. \<not> open_fails failing_env nm"
  by (simp_all add: example_env_sel)

lemma example_run:
  "\<exists>w'. extract_data_to_csv example_env example_fs example_dir None flag empty_world
       = (Inr (resolved_output_dir example_dir None flag, 0), w')"
proof -
  from example_records[of flag] obtain recs
    where recs: "extract_data example_env example_fs example_dir flag = (recs, None)" by blast
  have root: "example_fs example_dir \<noteq> None" by (simp add: example_fs_root)
  have dir: "None = (None :: path option) \<longrightarrow> example_dir \<noteq> []" by (simp add: example_dir_def)
  show ?thesis
    by (rule run_completes[OF root dir example_writer_names(1) recs]) (simp add: example_env_sel)
qed

lemma failing_run:
  "\<exists>w'. extract_data_to_csv failing_env example_fs example_dir None False w = (Inl OSError, w') \<and>
        files w' = files w"
proof -
  from example_records[of False] obtain r10 r20 r30
    where recs: "extract_data failing_env example_fs example_dir False = ([r10, r20, r30], None)"
    unfolding failing_extract_data by blast
  have root: "example_fs example_dir \<noteq> None" by (simp add: example_fs_root)
  have dir: "None = (None :: path option) \<longrightarrow> example_dir \<noteq> []" by (simp add: example_dir_def)
  have k: "1 < length [r10, r20, r30]" by simp
  have nm: "''text'' \<in> set writer_names" by (simp add: writer_names_def)
  have fail: "write_fails failing_env ''text'' 1" by (simp add: example_env_sel)
  from write_failure_unwinds[OF root dir example_writer_names(2) recs k nm fail, of w]
  show ?thesis by blast
qed

lemma extract_data_ignores_flag:
  "extract_data env fs articles_dir True = extract_data env fs articles_dir False"
  by (simp add: extract_data_def)

section \<open>The claims\<close>

text \<open>
  Claim C1 says that with \<^verbatim>\<open>articles_with_coords_only\<close> set, an article without
  coordinates is left out of every table and of \<open>n_articles\<close>. The code never reads
  the flag. On the example corpus with the flag set, the third record yielded is the one
  of article 30, whose coordinate frame is empty; all three writers receive it, each file
  gets three parts, and \<^verbatim>\<open>info.json\<close> records \<open>n_articles = 3\<close>.
\<close>

theorem coords_only_flag_is_ignored:
  "(fst (extract_data example_env example_fs example_dir True) ! 2) ''coordinates'' = Some (Frame []) \<and>
   fst (extract_data_to_csv example_env example_fs example_dir None True empty_world)
     = Inr ([''data'', ''subset_articlesWithCoords_extractedData''], 0) \<and>
   files (snd (extract_data_to_csv example_env example_fs example_dir None True empty_world))
     [''data'', ''subset_articlesWithCoords_extractedData'', ''info.json''] = Some (JObj [(''n_articles'', JNum 3)]) \<and>
   list_all (\<lambda>wr. received wr = fst (extract_data example_env example_fs example_dir True) \<and>
                  map_option length (wfile wr) = Some 3)
     (writers (snd (extract_data_to_csv example_env example_fs example_dir None True empty_world)))"
proof -
  have out: "resolved_output_dir example_dir None True
      = [''data'', ''subset_articlesWithCoords_extractedData'']"
    by (simp add: resolved_output_dir_def example_dir_def)
  from example_run[of True] obtain w'
    where run: "extract_data_to_csv example_env example_fs example_dir None True empty_world
       = (Inr ([''data'', ''subset_articlesWithCoords_extractedData''], 0), w')"
    unfolding out by blast
  from example_records[of True] obtain r10 r20 r30
    where recs: "extract_data example_env example_fs example_dir True = ([r10, r20, r30], None)"
      and r30: "r30 ''coordinates'' = Some (Frame [])" by blast
  from completed_run[OF run] recs
  have each: "\<forall>wr \<in> set (writers w').
              received wr = [r10, r20, r30] \<and> wstatus wr = CLOSED \<and>
              wfile wr = Some (owned (wname wr) [r10, r20, r30]) \<and>
              length (owned (wname wr) [r10, r20, r30]) = length [r10, r20, r30]"
    and info: "files w' ([''data'', ''subset_articlesWithCoords_extractedData''] @ [''info.json''])
        = Some (info_json (length [r10, r20, r30]))"
    by auto
  from each have "list_all (\<lambda>wr. received wr = [r10, r20, r30] \<and>
      map_option length (wfile wr) = Some 3) (writers w')"
    by (auto simp: list_all_iff)
  with run recs r30 info show ?thesis by (simp add: numeral_3_eq_3 info_json_def)
qed

text \<open>
  Claim C2. In a run of \<^verbatim>\<open>extract_data_to_csv\<close> that returns, the three writers have
  each received the records yielded by \<^verbatim>\<open>extract_data\<close>, every record once and in
  order; each is closed with one part per record in its file; and \<open>n_articles\<close> in
  \<^verbatim>\<open>info.json\<close> is the number of those records, the same for all writers.
\<close>

theorem completed_run_feeds_every_writer_once:
  fixes env :: "('d, 'r) env"
  assumes "extract_data_to_csv env fs articles_dir output_dir flag w = (Inr v, w')"
  shows "\<exists>recs. extract_data env fs articles_dir flag = (recs, None) \<and>
           map wname (writers w') = [''metadata'', ''text'', ''coordinates''] \<and>
           (\<forall>wr \<in> set (writers w').
              received wr = recs \<and> wstatus wr = CLOSED \<and>
              wfile wr = Some (owned (wname wr) recs) \<and>
              length (owned (wname wr) recs) = length recs) \<and>
           files w' (fst v @ [''info.json'']) = Some (JObj [(''n_articles'', JNum (length recs))])"
  using assms by (rule completed_run[unfolded info_json_def])

theorem completed_run_feeds_every_writer_once_witness:
  "\<exists>v w' recs.
     extract_data_to_csv example_env example_fs example_dir None False empty_world = (Inr v, w') \<and>
     extract_data example_env example_fs example_dir False = (recs, None) \<and> length recs = 3 \<and>
     map wname (writers w') = [''metadata'', ''text'', ''coordinates''] \<and>
     (\<forall>wr \<in> set (writers w').
        received wr = recs \<and> wstatus wr = CLOSED \<and>
        wfile wr = Some (owned (wname wr) recs) \<and>
        length (owned (wname wr) recs) = length recs) \<and>
     files w' (fst v @ [''info.json'']) = Some (JObj [(''n_articles'', JNum 3)])"
proof -
  from example_run[of False] obtain v w'
    where run: "extract_data_to_csv example_env example_fs example_dir None False empty_world
       = (Inr v, w')" by blast
  from completed_run_feeds_every_writer_once[OF run] obtain recs
    where c: "extract_data example_env example_fs example_dir False = (recs, None) \<and>
        map wname (writers w') = [''metadata'', ''text'', ''coordinates''] \<and>
        (\<forall>wr \<in> set (writers w').
              received wr = recs \<and> wstatus wr = CLOSED \<and>
              wfile wr = Some (owned (wname wr) recs) \<and>
              length (owned (wname wr) recs) = length recs) \<and>
        files w' (fst v @ [''info.json'']) = Some (JObj [(''n_articles'', JNum (length recs))])" ..
  from c example_records[of False] have "length recs = 3" by auto
  with run c show ?thesis by (intro exI[of _ v] exI[of _ w'] exI[of _ recs]) simp
qed

text \<open>
  Claim C3. Let the corpus root exist, the output directory resolve and the three writers
  open. If the append number \<open>k\<close> of one of the writers meets an I/O failure and
  \<^verbatim>\<open>extract_data\<close> yields more than \<open>k\<close> records, then the run ends with the writer's
  exception, no file has been written with \<^verbatim>\<open>write_text\<close> (so no \<^verbatim>\<open>info.json\<close>), and
  all three writers are closed, their buffers empty and flushed to their files.
\<close>

theorem write_failure_closes_every_writer:
  fixes env :: "('d, 'r) env"
  assumes "fs articles_dir \<noteq> None" and "output_dir = None \<longrightarrow> articles_dir \<noteq> []"
    and "\<forall>nm \<in> set writer_names. \<not> open_fails env nm"
    and "extract_data env fs articles_dir flag = (recs, ex)"
    and "k < length recs" and "nm \<in> set writer_names" and "write_fails env nm k"
  shows "\<exists>w'. extract_data_to_csv env fs articles_dir output_dir flag w = (Inl OSError, w') \<and>
           files w' = files w \<and>
           map wname (writers w') = writer_names \<and>
           (\<forall>wr \<in> set (writers w').
              wstatus wr = CLOSED \<and> wbuffer wr = [] \<and>
              wfile wr = Some (owned (wname wr) (received wr)))"
  using assms by (rule write_failure_unwinds)

theorem write_failure_closes_every_writer_witness:
  "\<exists>recs w'.
     example_fs example_dir \<noteq> None \<and>
     (\<forall>nm \<in> set writer_names. \<not> open_fails failing_env nm) \<and>
     extract_data failing_env example_fs example_dir False = (recs, None) \<and>
     1 < length recs \<and> ''text'' \<in> set writer_names \<and> write_fails failing_env ''text'' 1 \<and>
     extract_data_to_csv failing_env example_fs example_dir None False empty_world
       = (Inl OSError, w') \<and>
     files w' = files empty_world \<and>
     files w' [''data'', ''subset_allArticles_extractedData'', ''info.json''] = None \<and>
     map wname (writers w') = writer_names \<and>
     (\<forall>wr \<in> set (writers w').
        wstatus wr = CLOSED \<and> wbuffer wr = [] \<and>
        wfile wr = Some (owned (wname wr) (received wr)))"
proof -
  from example_records[of False] obtain r10 r20 r30
    where recs: "extract_data failing_env example_fs example_dir False = ([r10, r20, r30], None)"
    unfolding failing_extract_data by blast
  have root: "example_fs example_dir \<noteq> None" by (simp add: example_fs_root)
  have dir: "None = (None :: path option) \<longrightarrow> example_dir \<noteq> []" by (simp add: example_dir_def)
  have k: "1 < length [r10, r20, r30]" by simp
  have nm: "''text'' \<in> set writer_names" by (simp add: writer_names_def)
  have fail: "write_fails failing_env ''text'' 1" by (simp add: example_env_sel)
  from write_failure_closes_every_writer[OF root dir example_writer_names(2) recs k nm fail,
      of empty_world]
  obtain w' where c: "extract_data_to_csv failing_env example_fs example_dir None False empty_world
        = (Inl OSError, w') \<and>
      files w' = files empty_world \<and>
      map wname (writers w') = writer_names \<and>
      (\<forall>wr \<in> set (writers w').
         wstatus wr = CLOSED \<and> wbuffer wr = [] \<and>
         wfile wr = Some (owned (wname wr) (received wr)))" ..
  then have "files w' [''data'', ''subset_allArticles_extractedData'', ''info.json''] = None"
    by (simp add: empty_world_def)
  with c root example_writer_names(2) recs k nm fail show ?thesis
    by (intro exI[of _ "[r10, r20, r30]"] exI[of _ w']) simp
qed

text \<open>
  Claim C4. \<^verbatim>\<open>iter_articles\<close> visits the article files in strictly increasing
  lexicographic order of (shard name, file name); the files visited are exactly those
  whose name matches \<^verbatim>\<open>pmcid_*.xml\<close> in the directories of the corpus root; and a run
  over the same tree enumerated in another order ends in the same state: the same visits,
  the same documents in the same sequence, the same counters and log.
\<close>

theorem traversal_sorted_and_deterministic:
  assumes "fs articles_dir = Some root" and "fs' articles_dir = Some root'"
    and "same_tree root root'"
  shows "\<exists>st. iter_articles prs fs articles_dir = Inr st \<and>
              iter_articles prs fs' articles_dir = Inr st \<and>
              sorted_wrt lex_less (visited st) \<and>
              set (visited st) =
                {(s, f). \<exists>d n. (s, d) \<in> set (listing root) \<and> is_dir d \<and>
                           (f, n) \<in> set (listing d) \<and> fnmatch ''pmcid_*.xml'' f}"
proof -
  from iter_articles_traced[where fs = fs and ad = articles_dir and prs = prs, OF assms(1)] obtain st
    where st: "iter_articles prs fs articles_dir = Inr st" and v: "visited st = traversal root"
    by blast
  from same_tree_iter_articles[where fs = fs and fs' = fs' and ad = articles_dir and prs = prs,
      OF assms] st
  have st': "iter_articles prs fs' articles_dir = Inr st" by simp
  from same_tree_well_formed[OF assms(3)] have wf: "well_formed root" .
  then have d: "distinct (map fst (listing root))" by (simp add: well_formed_def)
  from st st' v traversal_sorted[OF wf] traversal_set[OF d] show ?thesis by simp
qed

theorem traversal_sorted_and_deterministic_witness:
  "example_fs example_dir = Some example_root \<and>
   example_fs_reordered example_dir = Some example_root_reordered \<and>
   same_tree example_root example_root_reordered \<and>
   (\<exists>st. iter_articles example_parse example_fs example_dir = Inr st \<and>
         iter_articles example_parse example_fs_reordered example_dir = Inr st \<and>
         visited st = [(''000'', ''pmcid_10.xml''), (''000'', ''pmcid_15.xml''),
                       (''000'', ''pmcid_20.xml''), (''001'', ''pmcid_30.xml'')] \<and>
         yielded st = [''10'', ''20'', ''30''] \<and>
         sorted_wrt lex_less (visited st))"
proof -
  have same: "same_tree example_root example_root_reordered"
    by (auto simp: example_root_def example_root_reordered_def)
  from traversal_sorted_and_deterministic[where fs = example_fs and fs' = example_fs_reordered
      and articles_dir = example_dir and prs = example_parse,
      OF example_fs_root other_fs_root(3) same]
  obtain st where c: "iter_articles example_parse example_fs example_dir = Inr st \<and>
         iter_articles example_parse example_fs_reordered example_dir = Inr st \<and>
         sorted_wrt lex_less (visited st)" by blast
  with example_iter have "visited st = [(''000'', ''pmcid_10.xml''), (''000'', ''pmcid_15.xml''),
                       (''000'', ''pmcid_20.xml''), (''001'', ''pmcid_30.xml'')]"
    "yielded st = [''10'', ''20'', ''30'']" by auto
  with c same example_fs_root other_fs_root(3) show ?thesis by blast
qed

text \<open>
  Claim C5 says that an extractor that cannot process a document returns an empty
  mapping instead of raising, and that \<^verbatim>\<open>TextExtractor.extract\<close> never raises. The
  code does so when the transform raises (article 20 of the example: the exception is
  caught and \<^verbatim>\<open>{}\<close> returned), but the statements after the \<^verbatim>\<open>try\<close> are unguarded:
  for an article whose transform succeeds with a \<^verbatim>\<open>pmcid\<close> element that has no text,
  \<^verbatim>\<open>int(None)\<close> raises a \<^verbatim>\<open>TypeError\<close>, which ends \<^verbatim>\<open>extract_data\<close> before the next
  article (number 40) is looked at, and \<^verbatim>\<open>extract_data_to_csv\<close> with it.
\<close>

theorem text_extract_raises_on_missing_pmcid:
  "example_stylesheet [] \<noteq> None \<and>
   extract_text_from_article example_stylesheet example_str_to_int [] = Inl TypeError \<and>
   extract_data example_env no_pmcid_fs example_dir False = ([], Some TypeError) \<and>
   fst (extract_data_to_csv example_env no_pmcid_fs example_dir None False empty_world)
     = Inl TypeError \<and>
   example_stylesheet ''20'' = None \<and>
   extract_text_from_article example_stylesheet example_str_to_int ''20'' = Inr Map.empty"
proof -
  have root: "no_pmcid_fs example_dir \<noteq> None" by (simp add: other_fs_root)
  have dir: "None = (None :: path option) \<longrightarrow> example_dir \<noteq> []" by (simp add: example_dir_def)
  from run_after_open[OF root dir example_writer_names(1) no_pmcid_extract_data, of False empty_world]
  have "fst (extract_data_to_csv example_env no_pmcid_fs example_dir None False empty_world)
     = Inl TypeError" by auto
  moreover have "example_stylesheet [] \<noteq> None" "example_stylesheet ''20'' = None"
    by (simp_all add: example_stylesheet_def)
  ultimately show ?thesis
    using example_extract_text(2,4) no_pmcid_extract_data by simp
qed

text \<open>
  Claim C6. When the corpus root exists, \<^verbatim>\<open>iter_articles\<close> runs to the end of the
  traversal whatever fails to parse: it visits every file of the traversal and counts it,
  counts one failure and logs one diagnostic for each visited file that does not parse,
  in order, and yields the documents of all the others, in order.
\<close>

theorem parse_failures_are_skipped:
  assumes "fs articles_dir = Some root"
  shows "\<exists>st. iter_articles prs fs articles_dir = Inr st \<and>
              visited st = traversal root \<and>
              n_articles st = length (visited st) \<and>
              n_failures st = length (filter (\<lambda>v. parse_at prs root v = None) (visited st)) \<and>
              failure_paths (log st) =
                map (\<lambda>v. articles_dir @ [fst v, snd v])
                    (filter (\<lambda>v. parse_at prs root v = None) (visited st)) \<and>
              yielded st = List.map_filter (parse_at prs root) (visited st)"
  using iter_articles_traced[where fs = fs and ad = articles_dir and prs = prs, OF assms]
  by (auto simp: traced_def)

theorem parse_failures_are_skipped_witness:
  "example_fs example_dir = Some example_root \<and>
   (\<exists>st. iter_articles example_parse example_fs example_dir = Inr st \<and>
         visited st = [(''000'', ''pmcid_10.xml''), (''000'', ''pmcid_15.xml''),
                       (''000'', ''pmcid_20.xml''), (''001'', ''pmcid_30.xml'')] \<and>
         parse_at example_parse example_root (''000'', ''pmcid_15.xml'') = None \<and>
         n_articles st = 4 \<and> n_failures st = 1 \<and>
         failure_paths (log st) = [[''data'', ''articles'', ''000'', ''pmcid_15.xml'']] \<and>
         yielded st = [''10'', ''20'', ''30''] \<and>
         yielded st = List.map_filter (parse_at example_parse example_root) (visited st))"
proof -
  from parse_failures_are_skipped[where fs = example_fs and articles_dir = example_dir
      and prs = example_parse, OF example_fs_root]
  obtain st where st: "iter_articles example_parse example_fs example_dir = Inr st"
    and y: "yielded st = List.map_filter (parse_at example_parse example_root) (visited st)"
    by blast
  have bad: "parse_at example_parse example_root (''000'', ''pmcid_15.xml'') = None"
    by (simp add: parse_at_def example_root_def example_parse_def)
  from st example_iter have "visited st = [(''000'', ''pmcid_10.xml''), (''000'', ''pmcid_15.xml''),
                       (''000'', ''pmcid_20.xml''), (''001'', ''pmcid_30.xml'')]"
    "n_articles st = 4" "n_failures st = 1" "yielded st = [''10'', ''20'', ''30'']"
    "failure_paths (log st) = [[''data'', ''articles'', ''000'', ''pmcid_15.xml'']]"
    by auto
  with st y bad example_fs_root show ?thesis by blast
qed

text \<open>
  Claim C7. If the corpus root does not exist, everything fails before it starts:
  \<^verbatim>\<open>iter_articles\<close> and \<^verbatim>\<open>extract_data\<close> end with \<^verbatim>\<open>FileNotFoundError\<close> without
  having yielded anything, and \<^verbatim>\<open>extract_data_to_csv\<close> raises the same exception and
  leaves the world as it found it: no output directory made, no writer opened, no file
  written.
\<close>

theorem missing_root_fails_first:
  assumes "fs articles_dir = None"
  shows "iter_articles prs fs articles_dir = Inl FileNotFoundError \<and>
         extract_data env fs articles_dir flag = ([], Some FileNotFoundError) \<and>
         extract_data_to_csv env fs articles_dir output_dir flag w = (Inl FileNotFoundError, w)"
  using assms
  by (simp add: iter_articles_def extract_data_def extract_data_to_csv_def assert_exists_None)

theorem missing_root_fails_first_witness:
  "example_fs [''data'', ''missing''] = None \<and>
   iter_articles example_parse example_fs [''data'', ''missing''] = Inl FileNotFoundError \<and>
   extract_data example_env example_fs [''data'', ''missing''] True = ([], Some FileNotFoundError) \<and>
   extract_data_to_csv example_env example_fs [''data'', ''missing''] None True empty_world
     = (Inl FileNotFoundError, empty_world)"
proof -
  have h: "example_fs [''data'', ''missing''] = None"
    by (simp add: example_fs_def example_dir_def)
  from missing_root_fails_first[where fs = example_fs and articles_dir = "[''data'', ''missing'']", OF h] h
  show ?thesis by blast
qed

text \<open>
  Claim C8 says that an interrupted run leaves no \<^verbatim>\<open>info.json\<close>. The code never
  removes one: a run into an output directory that holds the \<^verbatim>\<open>info.json\<close> of an
  earlier run (\<^verbatim>\<open>mkdir\<close> accepts the existing directory), interrupted by a failing
  write, ends with the writer's exception and the old \<^verbatim>\<open>info.json\<close> is still there.
\<close>

theorem failed_rerun_keeps_info_json_counterexample:
  "files stale_world [''data'', ''subset_allArticles_extractedData'', ''info.json'']
     = Some (JObj [(''n_articles'', JNum 7)]) \<and>
   fst (extract_data_to_csv failing_env example_fs example_dir None False stale_world)
     = Inl OSError \<and>
   files (snd (extract_data_to_csv failing_env example_fs example_dir None False stale_world))
     [''data'', ''subset_allArticles_extractedData'', ''info.json'']
     = Some (JObj [(''n_articles'', JNum 7)])"
proof -
  from failing_run[of stale_world] obtain w'
    where "extract_data_to_csv failing_env example_fs example_dir None False stale_world
       = (Inl OSError, w')" and "files w' = files stale_world" by blast
  then show ?thesis by (simp add: stale_world_def)
qed

text \<open>
  Claim C8, amended. A run of \<^verbatim>\<open>extract_data_to_csv\<close> that returns has written
  \<^verbatim>\<open>info.json\<close> in its output directory, a document with the key \<open>n_articles\<close> bound
  to the number of records yielded. A run over a corpus that yields no record (with the
  root present, the output directory resolved and the writers opened) returns and leaves
  an \<^verbatim>\<open>info.json\<close> with \<open>n_articles\<close> bound to 0. A run that raises writes no file:
  afterwards the output directory holds an \<^verbatim>\<open>info.json\<close> only if it held that one
  before the run.
\<close>

theorem info_json_marks_completed_run:
  fixes env :: "('d, 'r) env"
  shows "(extract_data_to_csv env fs articles_dir output_dir flag w = (Inr v, w') \<longrightarrow>
            (\<exists>recs. extract_data env fs articles_dir flag = (recs, None) \<and>
               files w' (fst v @ [''info.json''])
                 = Some (JObj [(''n_articles'', JNum (length recs))]))) \<and>
         (extract_data_to_csv env fs articles_dir output_dir flag w = (Inl e, w') \<longrightarrow>
            files w' = files w) \<and>
         (fs articles_dir \<noteq> None \<and> (output_dir = None \<longrightarrow> articles_dir \<noteq> []) \<and>
          (\<forall>nm \<in> set writer_names. \<not> open_fails env nm) \<and>
          extract_data env fs articles_dir flag = ([], None) \<longrightarrow>
            (\<exists>w''. extract_data_to_csv env fs articles_dir output_dir flag w
                     = (Inr (resolved_output_dir articles_dir output_dir flag, 0), w'') \<and>
                   files w'' (resolved_output_dir articles_dir output_dir flag @ [''info.json''])
                     = Some (JObj [(''n_articles'', JNum 0)])))"
proof (intro conjI impI)
  assume run: "extract_data_to_csv env fs articles_dir output_dir flag w = (Inr v, w')"
  from completed_run[OF run, unfolded info_json_def]
  show "\<exists>recs. extract_data env fs articles_dir flag = (recs, None) \<and>
               files w' (fst v @ [''info.json''])
                 = Some (JObj [(''n_articles'', JNum (length recs))])"
    by blast
next
  assume "extract_data_to_csv env fs articles_dir output_dir flag w = (Inl e, w')"
  then show "files w' = files w" by (rule run_Inl_files)
next
  assume h: "fs articles_dir \<noteq> None \<and> (output_dir = None \<longrightarrow> articles_dir \<noteq> []) \<and>
          (\<forall>nm \<in> set writer_names. \<not> open_fails env nm) \<and>
          extract_data env fs articles_dir flag = ([], None)"
  then have a: "fs articles_dir \<noteq> None" and b: "output_dir = None \<longrightarrow> articles_dir \<noteq> []"
    and c: "\<forall>nm \<in> set writer_names. \<not> open_fails env nm"
    and d: "extract_data env fs articles_dir flag = ([], None)" by blast+
  have "\<exists>w''. extract_data_to_csv env fs articles_dir output_dir flag w
                     = (Inr (resolved_output_dir articles_dir output_dir flag, 0), w'')"
    by (rule run_completes[OF a b c d]) simp
  then obtain w'' where run: "extract_data_to_csv env fs articles_dir output_dir flag w
                     = (Inr (resolved_output_dir articles_dir output_dir flag, 0), w'')" ..
  from completed_run[OF run, unfolded info_json_def] h
  have "files w'' (resolved_output_dir articles_dir output_dir flag @ [''info.json''])
                     = Some (JObj [(''n_articles'', JNum 0)])" by auto
  with run show "\<exists>w''. extract_data_to_csv env fs articles_dir output_dir flag w
                     = (Inr (resolved_output_dir articles_dir output_dir flag, 0), w'') \<and>
                   files w'' (resolved_output_dir articles_dir output_dir flag @ [''info.json''])
                     = Some (JObj [(''n_articles'', JNum 0)])" by blast
qed

theorem info_json_marks_completed_run_witness:
  "\<exists>v w1 e w2 e' w4 w3.
     extract_data_to_csv example_env example_fs example_dir None False empty_world = (Inr v, w1) \<and>
     files w1 (fst v @ [''info.json'']) = Some (JObj [(''n_articles'', JNum 3)]) \<and>
     extract_data_to_csv failing_env example_fs example_dir None False empty_world = (Inl e, w2) \<and>
     files w2 = files empty_world \<and>
     files w2 [''data'', ''subset_allArticles_extractedData'', ''info.json''] = None \<and>
     extract_data_to_csv failing_env example_fs example_dir None False stale_world = (Inl e', w4) \<and>
     files w4 = files stale_world \<and>
     broken_fs example_dir \<noteq> None \<and>
     (\<forall>nm \<in> set writer_names. \<not> open_fails example_env nm) \<and>
     extract_data example_env broken_fs example_dir False = ([], None) \<and>
     extract_data_to_csv example_env broken_fs example_dir None False empty_world
       = (Inr ([''data'', ''subset_allArticles_extractedData''], 0), w3) \<and>
     files w3 [''data'', ''subset_allArticles_extractedData'', ''info.json'']
       = Some (JObj [(''n_articles'', JNum 0)])"
proof -
  have out: "resolved_output_dir example_dir None False = [''data'', ''subset_allArticles_extractedData'']"
    by (simp add: resolved_output_dir_def example_dir_def)
  have broot: "broken_fs example_dir \<noteq> None" by (simp add: other_fs_root)
  have dir: "None = (None :: path option) \<longrightarrow> example_dir \<noteq> []" by (simp add: example_dir_def)
  from example_run[of False] obtain v w1
    where run1: "extract_data_to_csv example_env example_fs example_dir None False empty_world
       = (Inr v, w1)" by blast
  from info_json_marks_completed_run[where env = example_env and fs = example_fs
      and articles_dir = example_dir and output_dir = None and flag = False and w = empty_world
      and v = v and w' = w1] run1
  obtain recs where recs: "extract_data example_env example_fs example_dir False = (recs, None)"
    and info1: "files w1 (fst v @ [''info.json''])
        = Some (JObj [(''n_articles'', JNum (length recs))])" by blast
  from recs example_records[of False] have "length recs = 3" by auto
  with info1 have i1: "files w1 (fst v @ [''info.json'']) = Some (JObj [(''n_articles'', JNum 3)])"
    by simp
  from failing_run[of empty_world] obtain w2
    where run2: "extract_data_to_csv failing_env example_fs example_dir None False
      empty_world = (Inl OSError, w2)" by blast
  from info_json_marks_completed_run[where env = failing_env and fs = example_fs
      and articles_dir = example_dir and output_dir = None and flag = False and w = empty_world
      and e = OSError and w' = w2] run2
  have i2: "files w2 = files empty_world" by blast
  then have n2: "files w2 [''data'', ''subset_allArticles_extractedData'', ''info.json''] = None"
    by (simp add: empty_world_def)
  from failing_run[of stale_world] obtain w4
    where run4: "extract_data_to_csv failing_env example_fs example_dir None False
      stale_world = (Inl OSError, w4)" by blast
  from info_json_marks_completed_run[where env = failing_env and fs = example_fs
      and articles_dir = example_dir and output_dir = None and flag = False and w = stale_world
      and e = OSError and w' = w4] run4
  have i4: "files w4 = files stale_world" by blast
  from info_json_marks_completed_run[where env = example_env and fs = broken_fs
      and articles_dir = example_dir and output_dir = None and flag = False and w = empty_world]
    broot dir example_writer_names(1) broken_extract_data[of False]
  obtain w3 where run3: "extract_data_to_csv example_env broken_fs example_dir None False empty_world
       = (Inr (resolved_output_dir example_dir None False, 0), w3)"
    and i3: "files w3 (resolved_output_dir example_dir None False @ [''info.json''])
       = Some (JObj [(''n_articles'', JNum 0)])"
    by blast
  from run1 i1 run2 i2 n2 run4 i4 broot example_writer_names(1) broken_extract_data[of False] run3 i3
  show ?thesis unfolding out
    by (intro exI[of _ v] exI[of _ w1] exI[of _ OSError] exI[of _ w2] exI[of _ OSError]
        exI[of _ w4] exI[of _ w3]) simp
qed

text \<open>
  Claim C9. Every record that \<^verbatim>\<open>extract_data\<close> yields has exactly the names of the
  three registered extractors as its keys, whatever the extractors returned; in the
  example, the record of the article whose transform fails still has its \<open>text\<close> key,
  bound to an empty mapping.
\<close>

theorem record_keys_are_extractor_names:
  fixes env :: "('d, 'r) env"
  assumes "extract_data env fs articles_dir flag = (recs, ex)" and "r \<in> set recs"
  shows "dom r = {''coordinates'', ''metadata'', ''text''}"
  using extract_data_dom[OF assms] by (auto simp: writer_names_def)

theorem record_keys_are_extractor_names_witness:
  "\<exists>r10 r20 r30.
     extract_data example_env example_fs example_dir False = ([r10, r20, r30], None) \<and>
     r20 \<in> set [r10, r20, r30] \<and> r20 ''text'' = Some (Fields Map.empty) \<and>
     dom r20 = {''coordinates'', ''metadata'', ''text''}"
proof -
  from example_records[of False] obtain r10 r20 r30
    where recs: "extract_data example_env example_fs example_dir False = ([r10, r20, r30], None)"
      and empty: "r20 ''text'' = Some (Fields Map.empty)" by blast
  have mem: "r20 \<in> set [r10, r20, r30]" by simp
  from record_keys_are_extractor_names[OF recs mem] recs empty mem show ?thesis by blast
qed

text \<open>
  Claim C10. A call of \<^verbatim>\<open>extract_data_to_csv\<close> that returns, returns the pair of the
  resolved output directory (the one given, or else the sibling of the corpus root named
  after the flag) and the exit code 0, and that directory has been made. This holds also
  when article files failed to parse: in the example no file parses and the run returns.
\<close>

theorem returns_output_dir_and_zero:
  assumes "extract_data_to_csv env fs articles_dir output_dir flag w = (Inr v, w')"
  shows "v = (resolved_output_dir articles_dir output_dir flag, 0) \<and>
         resolved_output_dir articles_dir output_dir flag \<in> dirs w'"
proof -
  from run_Inr_D[OF assms] obtain out w1 ws n stack
    where g: "get_output_dir articles_dir output_dir flag w = (Inr out, w1)" and v: "v = (out, 0)"
      and w': "w' = w1\<lparr>writers := exit_stack stack ws,
                   files := (files w1)(out @ [''info.json''] \<mapsto> info_json n)\<rparr>"
    by blast
  from get_output_dir_Inr[OF g] mkdir_fields[of out w] v w' show ?thesis by simp
qed

theorem returns_output_dir_and_zero_witness:
  "\<exists>st w'. iter_articles example_parse broken_fs example_dir = Inr st \<and>
     yielded st = [] \<and> n_failures st = 2 \<and> n_articles st = 2 \<and>
     extract_data_to_csv example_env broken_fs example_dir None False empty_world
       = (Inr ([''data'', ''subset_allArticles_extractedData''], 0), w') \<and>
     [''data'', ''subset_allArticles_extractedData''] \<in> dirs w'"
proof -
  have out: "resolved_output_dir example_dir None False = [''data'', ''subset_allArticles_extractedData'']"
    by (simp add: resolved_output_dir_def example_dir_def)
  have root: "broken_fs example_dir \<noteq> None" by (simp add: other_fs_root)
  have dir: "None = (None :: path option) \<longrightarrow> example_dir \<noteq> []" by (simp add: example_dir_def)
  have "\<exists>w'. extract_data_to_csv example_env broken_fs example_dir None False empty_world
       = (Inr (resolved_output_dir example_dir None False, 0), w')"
    by (rule run_completes[OF root dir example_writer_names(1) broken_extract_data]) simp
  then obtain w' where run: "extract_data_to_csv example_env broken_fs example_dir None False empty_world
       = (Inr (resolved_output_dir example_dir None False, 0), w')" by blast
  from returns_output_dir_and_zero[OF run] run broken_iter show ?thesis
    unfolding out by simp
qed

end
